theory Spec2Isabelle
  imports Main
begin

section \<open>JavaScript values\<close>

text \<open>
  The scripts work on JSON data decoded by the HTTP client: tasks, custom fields and
  sheet cells are JavaScript values. Numbers are modelled as integers (the identifiers
  and epoch-millisecond time stamps the task API sends); fractions, exponent notation,
  \<open>NaN\<close> as a stored value and the infinities are not part of the model. An object is
  the list of its own properties; a property is looked up by name. Characters are
  8-bit: white space is the ASCII white space, and case mapping acts on \<open>A-Z\<close>.
\<close>

datatype jsval =
    JUndef
  | JNull
  | JBool bool
  | JNum int
  | JStr string
  | JArr "jsval list"
  | JObj "(string \<times> jsval) list"

datatype error = TypeError | RangeError | RequestFailed

text \<open>\<open>ToBoolean\<close>: what \<open>if (x)\<close>, \<open>!x\<close> and \<open>x || y\<close> test.\<close>

fun truthy :: "jsval \<Rightarrow> bool" where
  "truthy JUndef = False"
| "truthy JNull = False"
| "truthy (JBool b) = b"
| "truthy (JNum n) = (n \<noteq> 0)"
| "truthy (JStr s) = (s \<noteq> [])"
| "truthy (JArr xs) = True"
| "truthy (JObj kvs) = True"

text \<open>\<open>a || b\<close> and \<open>a ?? b\<close>.\<close>

definition js_or :: "jsval \<Rightarrow> jsval \<Rightarrow> jsval" where
  "js_or a b = (if truthy a then a else b)"

fun nullish :: "jsval \<Rightarrow> bool" where
  "nullish JUndef = True"
| "nullish JNull = True"
| "nullish v = False"

definition js_coalesce :: "jsval \<Rightarrow> jsval \<Rightarrow> jsval" where
  "js_coalesce a b = (if nullish a then b else a)"

text \<open>
  \<open>v?.name\<close>: the property of an object, \<open>undefined\<close> when the object has no such
  property and when \<open>v\<close> is \<open>null\<close> or \<open>undefined\<close>. None of the property names the
  scripts read exists on a string, number, boolean or array, so there the lookup is
  \<open>undefined\<close> too.
\<close>

fun get_prop :: "jsval \<Rightarrow> string \<Rightarrow> jsval" where
  "get_prop (JObj kvs) k = (case map_of kvs k of Some v \<Rightarrow> v | None \<Rightarrow> JUndef)"
| "get_prop v k = JUndef"

subsection \<open>Numbers as decimal strings\<close>

definition digit_char :: "nat \<Rightarrow> char" where
  "digit_char d = char_of (48 + d)"

fun dec_nat :: "nat \<Rightarrow> string" where
  "dec_nat n = (if n < 10 then [digit_char n] else dec_nat (n div 10) @ [digit_char (n mod 10)])"

declare dec_nat.simps [simp del]

definition dec_int :: "int \<Rightarrow> string" where
  "dec_int i = (if i < 0 then CHR ''-'' # dec_nat (nat (- i)) else dec_nat (nat i))"

subsection \<open>Strings\<close>

fun join_with :: "string \<Rightarrow> string list \<Rightarrow> string" where
  "join_with sep [] = []"
| "join_with sep [s] = s"
| "join_with sep (s # t # ss) = s @ sep @ join_with sep (t # ss)"

text \<open>
  \<open>String(v)\<close>. An array prints its elements separated by commas, \<open>null\<close> and
  \<open>undefined\<close> elements as nothing; a plain object prints as \<open>[object Object]\<close>.
\<close>

fun to_string :: "jsval \<Rightarrow> string" where
  "to_string JUndef = ''undefined''"
| "to_string JNull = ''null''"
| "to_string (JBool b) = (if b then ''true'' else ''false'')"
| "to_string (JNum n) = dec_int n"
| "to_string (JStr s) = s"
| "to_string (JArr xs) = join_with '','' (map (\<lambda>x. if nullish x then [] else to_string x) xs)"
| "to_string (JObj kvs) = ''[object Object]''"

text \<open>\<open>xs.join(sep)\<close>.\<close>

definition js_join :: "string \<Rightarrow> jsval list \<Rightarrow> string" where
  "js_join sep xs = join_with sep (map (\<lambda>x. if nullish x then [] else to_string x) xs)"

definition is_space :: "char \<Rightarrow> bool" where
  "is_space c = (c \<in> set [CHR 0x09, CHR 0x0A, CHR 0x0B, CHR 0x0C, CHR 0x0D, CHR 0x20])"

definition trim :: "string \<Rightarrow> string" where
  "trim s = rev (dropWhile is_space (rev (dropWhile is_space s)))"

definition lower_char :: "char \<Rightarrow> char" where
  "lower_char c = (let n = (of_char c :: nat) in if 65 \<le> n \<and> n \<le> 90 then char_of (n + 32) else c)"

definition toLowerCase :: "string \<Rightarrow> string" where
  "toLowerCase s = map lower_char s"

section \<open>Task classifier\<close>

text \<open>
  \<^verbatim>\<open>
  function isDone(task) {
    const s = String(task?.status?.status || "").toLowerCase();
    return (
      ["complete", "completed", "done", "published", "finalized", "closed"].includes(s) ||
      task?.archived === true
    );
  }
  \<close>
\<close>

definition done_labels :: "string list" where
  "done_labels = [''complete'', ''completed'', ''done'', ''published'', ''finalized'', ''closed'']"

definition isDone :: "jsval \<Rightarrow> bool" where
  "isDone task =
     (let s = toLowerCase (to_string (js_or (get_prop (get_prop task ''status'') ''status'') (JStr [])))
      in s \<in> set done_labels \<or> get_prop task ''archived'' = JBool True)"

section \<open>Field extractor\<close>

text \<open>
  \<open>JSON.stringify\<close> is a parameter of the extractor: \<open>stringify v = None\<close> stands for
  a call that throws, which the \<open>try\<close>/\<open>catch\<close> of the script turns into the empty
  string.
\<close>

definition name_matches :: "string \<Rightarrow> jsval \<Rightarrow> bool" where
  "name_matches fieldName f =
     (toLowerCase (trim (to_string (js_or (get_prop f ''name'') (JStr [])))) =
      toLowerCase (trim fieldName))"

definition coerce_value :: "(jsval \<Rightarrow> string option) \<Rightarrow> jsval \<Rightarrow> string" where
  "coerce_value stringify v =
     (if nullish v then []
      else case v of
        JStr s \<Rightarrow> s
      | JNum n \<Rightarrow> to_string (JNum n)
      | JBool b \<Rightarrow> []
      | _ \<Rightarrow>
         (case get_prop v ''url'' of
            JStr u \<Rightarrow> u
          | _ \<Rightarrow>
            (case get_prop v ''value'' of
               JStr w \<Rightarrow> w
             | _ \<Rightarrow> (case stringify v of Some s \<Rightarrow> s | None \<Rightarrow> []))))"

definition custom_fields_of :: "jsval \<Rightarrow> jsval list" where
  "custom_fields_of task = (case get_prop task ''custom_fields'' of JArr fs \<Rightarrow> fs | _ \<Rightarrow> [])"

definition getCustomFieldValue :: "(jsval \<Rightarrow> string option) \<Rightarrow> jsval \<Rightarrow> string \<Rightarrow> string" where
  "getCustomFieldValue stringify task fieldName =
     (case find (name_matches fieldName) (custom_fields_of task) of
        None \<Rightarrow> []
      | Some match \<Rightarrow>
          if \<not> truthy match then [] else coerce_value stringify (get_prop match ''value''))"

subsection \<open>The extractor over the built-ins of the language\<close>





















section \<open>Record normalizer\<close>

subsection \<open>Time stamps\<close>

text \<open>
  \<open>Number(v)\<close>, with \<open>None\<close> for \<open>NaN\<close>. A string is read as an optionally signed
  decimal integer surrounded by white space, the empty string as 0; the other numeric
  notations of JavaScript (fractions, exponents, radix prefixes, \<open>Infinity\<close>) have no
  value among the modelled numbers and are read as \<open>NaN\<close>. An array or object is
  converted through its string form.
\<close>

definition is_digit :: "char \<Rightarrow> bool" where
  "is_digit c = (let n = (of_char c :: nat) in 48 \<le> n \<and> n \<le> 57)"

definition digits_value :: "string \<Rightarrow> int" where
  "digits_value ds = foldl (\<lambda>a c. 10 * a + (int (of_char c) - 48)) 0 ds"

definition str_to_number :: "string \<Rightarrow> int option" where
  "str_to_number s =
     (let t = trim s in
      case t of
        [] \<Rightarrow> Some 0
      | c # ds \<Rightarrow>
          if c = CHR ''-'' \<and> ds \<noteq> [] \<and> list_all is_digit ds then Some (- digits_value ds)
          else if c = CHR ''+'' \<and> ds \<noteq> [] \<and> list_all is_digit ds then Some (digits_value ds)
          else if list_all is_digit t then Some (digits_value t)
          else None)"

fun to_number :: "jsval \<Rightarrow> int option" where
  "to_number JUndef = None"
| "to_number JNull = Some 0"
| "to_number (JBool b) = Some (if b then 1 else 0)"
| "to_number (JNum n) = Some n"
| "to_number (JStr s) = str_to_number s"
| "to_number (JArr xs) = str_to_number (to_string (JArr xs))"
| "to_number (JObj kvs) = str_to_number (to_string (JObj kvs))"

text \<open>
  \<open>new Date(n).toISOString()\<close> for a time value \<open>n\<close> in milliseconds since the epoch:
  a \<open>RangeError\<close> beyond 8.64e15 milliseconds on either side, else the date of the
  proleptic Gregorian calendar in UTC, the year with four digits from 0 to 9999 and
  with a sign and six digits otherwise.
\<close>

definition pad_left :: "nat \<Rightarrow> int \<Rightarrow> string" where
  "pad_left w n = (let d = dec_nat (nat n) in replicate (w - length d) CHR ''0'' @ d)"

definition civil_from_days :: "int \<Rightarrow> int \<times> int \<times> int" where
  "civil_from_days z =
     (let z1 = z + 719468;
          era = z1 div 146097;
          doe = z1 mod 146097;
          yoe = (doe - doe div 1460 + doe div 36524 - doe div 146096) div 365;
          y = yoe + era * 400;
          doy = doe - (365 * yoe + yoe div 4 - yoe div 100);
          mp = (5 * doy + 2) div 153;
          d = doy - (153 * mp + 2) div 5 + 1;
          m = (if mp < 10 then mp + 3 else mp - 9)
      in (if m \<le> 2 then y + 1 else y, m, d))"

definition year_string :: "int \<Rightarrow> string" where
  "year_string y =
     (if 0 \<le> y \<and> y \<le> 9999 then pad_left 4 y
      else (if y < 0 then CHR ''-'' else CHR ''+'') # pad_left 6 \<bar>y\<bar>)"

definition toISOString :: "int \<Rightarrow> error + string" where
  "toISOString tv =
     (if \<bar>tv\<bar> > 8640000000000000 then Inl RangeError
      else
        let day = tv div 86400000;
            t = tv mod 86400000;
            (y, m, d) = civil_from_days day
        in Inr (year_string y @ ''-'' @ pad_left 2 m @ ''-'' @ pad_left 2 d @ ''T'' @
                pad_left 2 (t div 3600000) @ '':'' @ pad_left 2 (t div 60000 mod 60) @ '':'' @
                pad_left 2 (t div 1000 mod 60) @ ''.'' @ pad_left 3 (t mod 1000) @ ''Z''))"

text \<open>
  \<^verbatim>\<open>
  function toIso(ms) {
    const n = Number(ms);
    if (!n) return "";
    return new Date(n).toISOString();
  }
  \<close>
\<close>

definition toIso :: "jsval \<Rightarrow> error + string" where
  "toIso ms =
     (case to_number ms of
        None \<Rightarrow> Inr []
      | Some n \<Rightarrow> if n = 0 then Inr [] else toISOString n)"

subsection \<open>Records\<close>

record nrec =
  task_id :: jsval
  task_name :: jsval
  status :: jsval
  assignees :: jsval
  page_url :: jsval
  date_closed :: jsval
  url :: jsval

text \<open>Mapping a list through a function that may throw: the first error ends the run.\<close>

fun map_err :: "('a \<Rightarrow> error + 'b) \<Rightarrow> 'a list \<Rightarrow> error + 'b list" where
  "map_err f [] = Inr []"
| "map_err f (x # xs) =
     (case f x of
        Inl e \<Rightarrow> Inl e
      | Inr y \<Rightarrow> (case map_err f xs of Inl e \<Rightarrow> Inl e | Inr ys \<Rightarrow> Inr (y # ys)))"

text \<open>\<open>(a) => a.username || a.email || a.id\<close>\<close>

definition assignee_label :: "jsval \<Rightarrow> error + jsval" where
  "assignee_label a =
     (if nullish a then Inl TypeError
      else Inr (js_or (js_or (get_prop a ''username'') (get_prop a ''email'')) (get_prop a ''id'')))"

text \<open>
  \<open>(t.assignees || []).map(...).join(", ")\<close>: a truthy value that is not an array has
  no \<open>map\<close> method, which is a \<open>TypeError\<close>.
\<close>

definition assignees_string :: "jsval \<Rightarrow> error + string" where
  "assignees_string t =
     (case js_or (get_prop t ''assignees'') (JArr []) of
        JArr xs \<Rightarrow> (case map_err assignee_label xs of
                      Inl e \<Rightarrow> Inl e
                    | Inr labels \<Rightarrow> Inr (js_join '', '' labels))
      | _ \<Rightarrow> Inl TypeError)"

text \<open>
  The object built for one task, field by field in the order of the source. The field
  name to extract (\<open>PAGE_URL_FIELD_NAME\<close>, from the environment) is a parameter.
\<close>

definition to_record :: "(jsval \<Rightarrow> string option) \<Rightarrow> string \<Rightarrow> jsval \<Rightarrow> error + nrec" where
  "to_record stringify fieldName t =
     (if nullish t then Inl TypeError
      else case assignees_string t of
        Inl e \<Rightarrow> Inl e
      | Inr asg \<Rightarrow>
         (case toIso (js_or (js_or (get_prop t ''date_closed'') (get_prop t ''date_done'')) (JStr [])) of
            Inl e \<Rightarrow> Inl e
          | Inr stamp \<Rightarrow>
              Inr \<lparr> task_id = JStr (to_string (js_or (get_prop t ''id'') (JStr []))),
                    task_name = js_or (get_prop t ''name'') (JStr []),
                    status = js_or (get_prop (get_prop t ''status'') ''status'') (JStr []),
                    assignees = JStr asg,
                    page_url = JStr (getCustomFieldValue stringify t fieldName),
                    date_closed = JStr stamp,
                    url = js_or (get_prop t ''url'') (JStr []) \<rparr>))"

text \<open>
  \<^verbatim>\<open>
  function normalize(tasks) {
    return tasks
      .filter(isDone)
      .map((t) => ({ ... }))
      .filter((r) => r.task_id);
  }
  \<close>
\<close>

definition normalize_tasks :: "(jsval \<Rightarrow> string option) \<Rightarrow> string \<Rightarrow> jsval list \<Rightarrow> error + nrec list" where
  "normalize_tasks stringify fieldName tasks =
     (case map_err (to_record stringify fieldName) (filter isDone tasks) of
        Inl e \<Rightarrow> Inl e
      | Inr rs \<Rightarrow> Inr (filter (\<lambda>r. truthy (task_id r)) rs))"

section \<open>Task source paginator\<close>

text \<open>
  A page source answers a page index with the tasks of that page
  (\<open>res.data?.tasks || []\<close>), or fails; a failed request ends the run with its error.
\<close>

type_synonym page_source = "nat \<Rightarrow> error + jsval list"

text \<open>
  \<^verbatim>\<open>
  async function fetchAllTasksFromTeam(teamId) {
    let page = 0;
    const all = [];
    while (true) {
      const res = await clickup.get(`/team/${teamId}/task`, { params: { include_closed: true, page } });
      const tasks = res.data?.tasks || [];
      all.push(...tasks);
      if (!tasks.length) break;
      page++;
    }
    return all;
  }
  \<close>
  The loop has no bound of its own, so the model is a partial function: \<open>None\<close> is
  a run that never returns.
\<close>

partial_function (option) fetchAllTasksFromTeam_loop ::
    "page_source \<Rightarrow> nat \<Rightarrow> jsval list \<Rightarrow> (error + jsval list) option" where
  "fetchAllTasksFromTeam_loop src page all =
     (case src page of
        Inl e \<Rightarrow> Some (Inl e)
      | Inr tasks \<Rightarrow>
          if tasks = [] then Some (Inr (all @ tasks))
          else fetchAllTasksFromTeam_loop src (page + 1) (all @ tasks))"

declare fetchAllTasksFromTeam_loop.simps [code]

definition fetchAllTasksFromTeam :: "page_source \<Rightarrow> (error + jsval list) option" where
  "fetchAllTasksFromTeam src = fetchAllTasksFromTeam_loop src 0 []"

text \<open>
  The list-scoped script has the same loop with a cap:
  \<^verbatim>\<open>
      if (!tasks.length) break;
      page += 1;
      // safety cap
      if (page > 200) break;
  \<close>
\<close>

function fetchAllTasksFromList_loop :: "page_source \<Rightarrow> nat \<Rightarrow> jsval list \<Rightarrow> error + jsval list" where
  "fetchAllTasksFromList_loop src page all =
     (case src page of
        Inl e \<Rightarrow> Inl e
      | Inr tasks \<Rightarrow>
          if tasks = [] then Inr (all @ tasks)
          else if page + 1 > 200 then Inr (all @ tasks)
          else fetchAllTasksFromList_loop src (page + 1) (all @ tasks))"
  by pat_completeness auto
termination
  by (relation "measure (\<lambda>(src, page, all). 201 - page)") auto

declare fetchAllTasksFromList_loop.simps [simp del]

definition fetchAllTasksFromList :: "page_source \<Rightarrow> error + jsval list" where
  "fetchAllTasksFromList src = fetchAllTasksFromList_loop src 0 []"

section \<open>Tabular store\<close>

text \<open>
  Modelled from the spec: the tabular store collaborator, a spreadsheet service that is
  not part of the repository. The spec gives it three operations: read a rectangular
  cell range, overwrite a rectangular cell range, and append rows after the last row
  of a range. A store is the list of its rows, row 1 first, each row the list of its
  cells from column A on. The scripts read \<open>A1:G1\<close> and \<open>A2:G\<close>, overwrite
  \<open>A1:G1\<close> and \<open>An:Gn\<close>, and append to \<open>A:G\<close>; columns A to G are the first
  seven cells of a row.
\<close>

type_synonym row = "jsval list"
type_synonym store = "row list"

definition values_get_header :: "store \<Rightarrow> row" where
  "values_get_header s = (case s of [] \<Rightarrow> [] | r # rest \<Rightarrow> take 7 r)"

definition values_get_data :: "store \<Rightarrow> row list" where
  "values_get_data s = map (take 7) (drop 1 s)"

text \<open>
  Overwriting row \<open>n\<close> (counted from 1) replaces its first cells by the values given
  and keeps the cells to their right; a row below the last one is created, with empty
  rows between.
\<close>

definition write_row :: "nat \<Rightarrow> row \<Rightarrow> store \<Rightarrow> store" where
  "write_row n vals s =
     (if n = 0 then s
      else let t = s @ replicate (n - length s) []
           in t[n - 1 := vals @ drop (length vals) (t ! (n - 1))])"

definition batch_update :: "(nat \<times> row) list \<Rightarrow> store \<Rightarrow> store" where
  "batch_update updates s = fold (\<lambda>(n, vals). write_row n vals) updates s"

text \<open>
  Appending to \<open>A:G\<close> adds the rows after the last row of the store; on a store with
  no row at all the first appended row becomes row 1.
\<close>

definition append_rows :: "row list \<Rightarrow> store \<Rightarrow> store" where
  "append_rows new s = s @ new"

text \<open>The write requests a run sends to the store.\<close>

datatype request =
    ValuesUpdate nat row
  | BatchUpdate "(nat \<times> row) list"
  | Append "row list"

section \<open>Header guard\<close>

definition HEADERS :: "string list" where
  "HEADERS = [''task_id'', ''task_name'', ''status'', ''assignees'', ''page_url'', ''date_closed'', ''url'']"

text \<open>
  \<^verbatim>\<open>
  const existing = res.data.values?.[0] || [];
  const ok =
    existing.length === HEADERS.length &&
    existing.every((v, i) => String(v).trim() === HEADERS[i]);
  if (!ok) { await sheets.spreadsheets.values.update({ range, ..., requestBody: { values: [HEADERS] } }); }
  \<close>
\<close>

definition header_ok :: "row \<Rightarrow> bool" where
  "header_ok existing =
     (length existing = length HEADERS \<and>
      list_all (\<lambda>(v, h). trim (to_string v) = h) (zip existing HEADERS))"

definition ensureHeaderRow :: "store \<Rightarrow> request list \<times> store" where
  "ensureHeaderRow s =
     (let existing = values_get_header s in
      if \<not> header_ok existing
      then ([ValuesUpdate 1 (map JStr HEADERS)], write_row 1 (map JStr HEADERS) s)
      else ([], s))"

section \<open>Sheet reconciler\<close>

text \<open>\<open>r[h]\<close> for a column name \<open>h\<close>.\<close>

definition record_field :: "nrec \<Rightarrow> string \<Rightarrow> jsval" where
  "record_field r h =
     (if h = ''task_id'' then task_id r
      else if h = ''task_name'' then task_name r
      else if h = ''status'' then status r
      else if h = ''assignees'' then assignees r
      else if h = ''page_url'' then page_url r
      else if h = ''date_closed'' then date_closed r
      else if h = ''url'' then url r
      else JUndef)"

text \<open>\<open>HEADERS.map((h) => r[h] ?? "")\<close>\<close>

definition rowFromRecord :: "nrec \<Rightarrow> row" where
  "rowFromRecord r = map (\<lambda>h. js_coalesce (record_field r h) (JStr [])) HEADERS"

text \<open>\<open>rows[i]?.[0]\<close>\<close>

definition cell0 :: "row \<Rightarrow> jsval" where
  "cell0 r = (case r of [] \<Rightarrow> JUndef | c # cs \<Rightarrow> c)"

text \<open>
  \<^verbatim>\<open>
  const idToRow = new Map();
  for (let i = 0; i < rows.length; i++) {
    const taskId = rows[i]?.[0];
    if (taskId) idToRow.set(String(taskId), i + 2); // start at row 2
  }
  \<close>
  The loop, from index \<open>i\<close> over the rows still to visit.
\<close>

fun idToRow_loop :: "nat \<Rightarrow> row list \<Rightarrow> (string \<rightharpoonup> nat) \<Rightarrow> (string \<rightharpoonup> nat)" where
  "idToRow_loop i [] m = m"
| "idToRow_loop i (r # rows) m =
     idToRow_loop (i + 1) rows
       (let taskId = cell0 r in if truthy taskId then m(to_string taskId \<mapsto> i + 2) else m)"

text \<open>\<open>idToRow.get(v)\<close>: the keys are strings, and no other value equals a string.\<close>

definition map_get :: "(string \<rightharpoonup> nat) \<Rightarrow> jsval \<Rightarrow> nat option" where
  "map_get m v = (case v of JStr k \<Rightarrow> m k | _ \<Rightarrow> None)"

text \<open>
  \<^verbatim>\<open>
  for (const r of records) {
    const rowNum = idToRow.get(r.task_id);
    const values = [rowFromRecord(r)];
    if (rowNum) { updates.push({ range: `${SHEET_TAB_NAME}!A${rowNum}:G${rowNum}`, values }); }
    else { appends.push(values[0]); }
  }
  \<close>
\<close>

fun schedule ::
    "(string \<rightharpoonup> nat) \<Rightarrow> nrec list \<Rightarrow> (nat \<times> row) list \<Rightarrow> row list \<Rightarrow> (nat \<times> row) list \<times> row list" where
  "schedule m [] updates appends = (updates, appends)"
| "schedule m (r # rs) updates appends =
     (case map_get m (task_id r) of
        Some rowNum \<Rightarrow>
          if rowNum \<noteq> 0 then schedule m rs (updates @ [(rowNum, rowFromRecord r)]) appends
          else schedule m rs updates (appends @ [rowFromRecord r])
      | None \<Rightarrow> schedule m rs updates (appends @ [rowFromRecord r]))"

definition idToRow :: "store \<Rightarrow> (string \<rightharpoonup> nat)" where
  "idToRow s = idToRow_loop 0 (values_get_data s) Map.empty"

definition upsert_plan :: "store \<Rightarrow> nrec list \<Rightarrow> (nat \<times> row) list \<times> row list" where
  "upsert_plan s records = schedule (idToRow s) records [] []"

text \<open>
  The two batched writes, each sent only when it has something to write, and the store
  after them.
\<close>

definition upsertByTaskId :: "store \<Rightarrow> nrec list \<Rightarrow> request list \<times> store" where
  "upsertByTaskId s records =
     (let (updates, appends) = upsert_plan s records;
          s1 = (if updates \<noteq> [] then batch_update updates s else s);
          s2 = (if appends \<noteq> [] then append_rows appends s1 else s1)
      in ((if updates \<noteq> [] then [BatchUpdate updates] else []) @
          (if appends \<noteq> [] then [Append appends] else []), s2))"

section \<open>Notions used in the statements\<close>

text \<open>\<open>typeof v === "object"\<close> for a value that is not \<open>null\<close>, and \<open>typeof v === "string"\<close>.\<close>

fun is_object :: "jsval \<Rightarrow> bool" where
  "is_object (JArr xs) = True"
| "is_object (JObj kvs) = True"
| "is_object v = False"

fun is_str :: "jsval \<Rightarrow> bool" where
  "is_str (JStr s) = True"
| "is_str v = False"

text \<open>The tasks of a page, none when the request fails.\<close>

definition page_tasks :: "page_source \<Rightarrow> nat \<Rightarrow> jsval list" where
  "page_tasks src p = (case src p of Inr ts \<Rightarrow> ts | Inl e \<Rightarrow> [])"

text \<open>
  The key under which the row map files a row: the string form of its column A, when
  that cell is truthy.
\<close>

definition key_of :: "row \<Rightarrow> string option" where
  "key_of r = (if truthy (cell0 r) then Some (to_string (cell0 r)) else None)"

text \<open>
  Whether the scheduling loop finds a row for a record (\<open>if (rowNum)\<close>), and the row
  it finds.
\<close>

definition mapped :: "(string \<rightharpoonup> nat) \<Rightarrow> nrec \<Rightarrow> bool" where
  "mapped m r = (case map_get m (task_id r) of Some n \<Rightarrow> n \<noteq> 0 | None \<Rightarrow> False)"

definition target :: "(string \<rightharpoonup> nat) \<Rightarrow> nrec \<Rightarrow> nat" where
  "target m r = (case map_get m (task_id r) of Some n \<Rightarrow> n | None \<Rightarrow> 0)"

text \<open>Records whose task id is a non-empty string, as the normalizer produces them.\<close>

definition keyed :: "nrec list \<Rightarrow> bool" where
  "keyed rs = list_all (\<lambda>r. case task_id r of JStr k \<Rightarrow> k \<noteq> [] | _ \<Rightarrow> False) rs"

text \<open>The last record of a list with a given task id.\<close>

definition lastrec :: "nrec list \<Rightarrow> string \<Rightarrow> nrec option" where
  "lastrec rs k = find (\<lambda>r. task_id r = JStr k) (rev rs)"

section \<open>Properties of the classifier\<close>

text \<open>
  C4. The classifier lower-cases the status label but does not trim it: a label with
  surrounding white space is not recognised. For a task whose status label is the
  string \<open>s\<close>, \<open>isDone\<close> holds exactly when the lower-cased \<open>s\<close> is one of the six
  terminal labels or the archived flag is \<open>true\<close>; for a task with no status label
  (absent, \<open>null\<close> or empty) it holds exactly when the archived flag is \<open>true\<close>.
\<close>

theorem isDone_iff_lowercase_label:
  "(get_prop (get_prop t ''status'') ''status'' = JStr s \<longrightarrow>
      (isDone t \<longleftrightarrow> toLowerCase s \<in> set done_labels \<or> get_prop t ''archived'' = JBool True)) \<and>
   (\<not> truthy (get_prop (get_prop t ''status'') ''status'') \<longrightarrow>
      (isDone t \<longleftrightarrow> get_prop t ''archived'' = JBool True))"
proof (intro conjI impI)
  assume "get_prop (get_prop t ''status'') ''status'' = JStr s"
  then show "isDone t \<longleftrightarrow> toLowerCase s \<in> set done_labels \<or> get_prop t ''archived'' = JBool True"
    by (cases "s = []") (simp_all add: isDone_def js_or_def toLowerCase_def)
next
  assume "\<not> truthy (get_prop (get_prop t ''status'') ''status'')"
  then show "isDone t \<longleftrightarrow> get_prop t ''archived'' = JBool True"
    by (simp add: isDone_def js_or_def toLowerCase_def done_labels_def)
qed

theorem isDone_iff_lowercase_label_witness:
  "get_prop (get_prop (JObj [(''status'', JObj [(''status'', JStr ''DoNe'')])]) ''status'') ''status''
     = JStr ''DoNe'' \<and>
   isDone (JObj [(''status'', JObj [(''status'', JStr ''DoNe'')])]) \<and>
   \<not> truthy (get_prop (get_prop (JObj [(''archived'', JBool True)]) ''status'') ''status'') \<and>
   isDone (JObj [(''archived'', JBool True)])"
proof -
  have "toLowerCase ''DoNe'' \<in> set done_labels"
    by code_simp
  then show ?thesis
    using isDone_iff_lowercase_label [of "JObj [(''status'', JObj [(''status'', JStr ''DoNe'')])]" "''DoNe''"]
      isDone_iff_lowercase_label [of "JObj [(''archived'', JBool True)]" "[]"]
    by simp
qed

text \<open>
  The claim as written asks for the trimmed label: the task with status label
  \<open>" done"\<close> and archived \<open>false\<close> is not done for the code, although its trimmed,
  lower-cased label is \<open>done\<close>.
\<close>

theorem isDone_untrimmed_counterexample:
  "\<not> (isDone (JObj [(''status'', JObj [(''status'', JStr '' done'')]), (''archived'', JBool False)])
        \<longleftrightarrow> toLowerCase (trim '' done'') \<in> set done_labels \<or> JBool False = JBool True)"
  by code_simp

section \<open>Properties of the field extractor\<close>






















section \<open>Properties of the normalizer\<close>

lemma map_err_member:
  "map_err f xs = Inr ys \<Longrightarrow> y \<in> set ys \<Longrightarrow> \<exists>x\<in>set xs. f x = Inr y"
proof (induction xs arbitrary: ys)
  case Nil
  then show ?case by simp
next
  case (Cons x xs)
  from Cons.prems(1) obtain z zs where fx: "f x = Inr z" and rest: "map_err f xs = Inr zs"
    and ys: "ys = z # zs"
    by (auto split: sum.splits)
  show ?case
  proof (cases "y = z")
    case True
    with fx show ?thesis by simp
  next
    case False
    with Cons.prems(2) ys have "y \<in> set zs" by simp
    with Cons.IH [OF rest] show ?thesis by auto
  qed
qed

lemma normalize_tasks_split:
  assumes "normalize_tasks stringify fieldName tasks = Inr rs"
  shows "\<exists>rs0. map_err (to_record stringify fieldName) (filter isDone tasks) = Inr rs0 \<and>
     rs = filter (\<lambda>r. truthy (task_id r)) rs0"
  using assms unfolding normalize_tasks_def
  by (cases "map_err (to_record stringify fieldName) (filter isDone tasks)") simp_all

lemma normalize_tasks_member:
  assumes "normalize_tasks stringify fieldName tasks = Inr rs" and "r \<in> set rs"
  shows "\<exists>t\<in>set tasks. isDone t \<and> to_record stringify fieldName t = Inr r \<and> truthy (task_id r)"
proof -
  from normalize_tasks_split [OF assms(1)] obtain rs0 where
    m: "map_err (to_record stringify fieldName) (filter isDone tasks) = Inr rs0"
    and rs: "rs = filter (\<lambda>r. truthy (task_id r)) rs0"
    by blast
  from assms(2) have "r \<in> set rs0" and tr: "truthy (task_id r)"
    unfolding rs by simp_all
  from map_err_member [OF m this(1)] obtain t where
    "t \<in> set (filter isDone tasks)" and rec: "to_record stringify fieldName t = Inr r"
    by blast
  then have "t \<in> set tasks" and "isDone t" by simp_all
  with rec tr show ?thesis by blast
qed

lemma js_or_not_nullish: "\<not> nullish (js_or a (JStr s))"
  by (cases a) (simp_all add: js_or_def)

lemma js_or_str: "is_str a \<Longrightarrow> is_str (js_or a (JStr s))"
  by (cases a) (simp_all add: js_or_def)

lemma js_or_falsy: "\<not> truthy a \<Longrightarrow> js_or a b = b"
  by (simp add: js_or_def)

lemma to_record_fields:
  assumes "to_record stringify fieldName t = Inr r"
  shows "task_id r = JStr (to_string (js_or (get_prop t ''id'') (JStr [])))"
    and "task_name r = js_or (get_prop t ''name'') (JStr [])"
    and "status r = js_or (get_prop (get_prop t ''status'') ''status'') (JStr [])"
    and "is_str (assignees r)"
    and "page_url r = JStr (getCustomFieldValue stringify t fieldName)"
    and "is_str (date_closed r)"
    and "url r = js_or (get_prop t ''url'') (JStr [])"
  using assms by (auto simp: to_record_def split: if_splits sum.splits)

lemma normalize_tasks_task_id:
  assumes "normalize_tasks stringify fieldName tasks = Inr rs" and "r \<in> set rs"
  shows "\<exists>k. task_id r = JStr k \<and> k \<noteq> []"
proof -
  from normalize_tasks_member [OF assms] obtain t where
    rec: "to_record stringify fieldName t = Inr r" and tr: "truthy (task_id r)" by blast
  from to_record_fields(1) [OF rec] tr show ?thesis by simp
qed

text \<open>
  C7. The scenario of the spec: the task 42, done, with a page URL field, one assignee
  and a closing time of 1700000000000 ms, normalizes to the one record below; the
  closing time becomes \<open>2023-11-14T22:13:20.000Z\<close>. The extracted field is the
  default \<open>Page URL\<close>.
\<close>

theorem normalize_tasks_scenario:
  "normalize_tasks stringify ''Page URL''
     [JObj [(''id'', JStr ''42''), (''status'', JObj [(''status'', JStr ''Done'')]),
            (''archived'', JBool False),
            (''custom_fields'', JArr [JObj [(''name'', JStr ''Page URL''), (''value'', JStr ''https://x/42'')]]),
            (''date_closed'', JNum 1700000000000),
            (''assignees'', JArr [JObj [(''username'', JStr ''amy'')]]),
            (''name'', JStr ''Write docs''), (''url'', JStr ''https://app/42'')]]
   = Inr [\<lparr>task_id = JStr ''42'', task_name = JStr ''Write docs'', status = JStr ''Done'',
           assignees = JStr ''amy'', page_url = JStr ''https://x/42'',
           date_closed = JStr ''2023-11-14T22:13:20.000Z'', url = JStr ''https://app/42''\<rparr>]"
  by code_simp

text \<open>
  C6. When the normalizer returns, every record has a task id that is a non-empty
  string; its assignees, page URL and closing date are strings; its name, status and
  URL are never \<open>null\<close> or \<open>undefined\<close>. The record comes from a done task of the
  input, and each of the three fields is the empty string when its source is absent
  (or otherwise falsy) and a string when its source is a string. A source of another
  type is passed through as it is.
\<close>

theorem normalize_tasks_fields:
  assumes "normalize_tasks stringify fieldName tasks = Inr rs"
  shows "\<forall>r\<in>set rs.
     (\<exists>k. task_id r = JStr k \<and> k \<noteq> []) \<and>
     is_str (assignees r) \<and> is_str (page_url r) \<and> is_str (date_closed r) \<and>
     \<not> nullish (task_name r) \<and> \<not> nullish (status r) \<and> \<not> nullish (url r) \<and>
     (\<exists>t\<in>set tasks. isDone t \<and> to_record stringify fieldName t = Inr r \<and>
        (\<not> truthy (get_prop t ''name'') \<longrightarrow> task_name r = JStr []) \<and>
        (is_str (get_prop t ''name'') \<longrightarrow> is_str (task_name r)) \<and>
        (\<not> truthy (get_prop (get_prop t ''status'') ''status'') \<longrightarrow> status r = JStr []) \<and>
        (is_str (get_prop (get_prop t ''status'') ''status'') \<longrightarrow> is_str (status r)) \<and>
        (\<not> truthy (get_prop t ''url'') \<longrightarrow> url r = JStr []) \<and>
        (is_str (get_prop t ''url'') \<longrightarrow> is_str (url r)))"
proof
  fix r assume r: "r \<in> set rs"
  from normalize_tasks_member [OF assms r] obtain t where
    t: "t \<in> set tasks" "isDone t" and rec: "to_record stringify fieldName t = Inr r"
    by blast
  note f = to_record_fields [OF rec]
  have id: "\<exists>k. task_id r = JStr k \<and> k \<noteq> []"
    using normalize_tasks_task_id [OF assms r] .
  have a1: "is_str (assignees r)" and a2: "is_str (page_url r)" and a3: "is_str (date_closed r)"
    using f(4,5,6) by simp_all
  have n1: "\<not> nullish (task_name r)" and n2: "\<not> nullish (status r)" and n3: "\<not> nullish (url r)"
    using f(2,3,7) by (simp_all add: js_or_not_nullish)
  have s1: "\<not> truthy (get_prop t ''name'') \<longrightarrow> task_name r = JStr []"
    using f(2) by (simp add: js_or_falsy)
  have s2: "is_str (get_prop t ''name'') \<longrightarrow> is_str (task_name r)"
    using f(2) by (simp add: js_or_str)
  have s3: "\<not> truthy (get_prop (get_prop t ''status'') ''status'') \<longrightarrow> status r = JStr []"
    using f(3) by (simp add: js_or_falsy)
  have s4: "is_str (get_prop (get_prop t ''status'') ''status'') \<longrightarrow> is_str (status r)"
    using f(3) by (simp add: js_or_str)
  have s5: "\<not> truthy (get_prop t ''url'') \<longrightarrow> url r = JStr []"
    using f(7) by (simp add: js_or_falsy)
  have s6: "is_str (get_prop t ''url'') \<longrightarrow> is_str (url r)"
    using f(7) by (simp add: js_or_str)
  have ex: "\<exists>t\<in>set tasks. isDone t \<and> to_record stringify fieldName t = Inr r \<and>
        (\<not> truthy (get_prop t ''name'') \<longrightarrow> task_name r = JStr []) \<and>
        (is_str (get_prop t ''name'') \<longrightarrow> is_str (task_name r)) \<and>
        (\<not> truthy (get_prop (get_prop t ''status'') ''status'') \<longrightarrow> status r = JStr []) \<and>
        (is_str (get_prop (get_prop t ''status'') ''status'') \<longrightarrow> is_str (status r)) \<and>
        (\<not> truthy (get_prop t ''url'') \<longrightarrow> url r = JStr []) \<and>
        (is_str (get_prop t ''url'') \<longrightarrow> is_str (url r))"
    by (rule bexI [OF _ t(1)]) (intro conjI t(2) rec s1 s2 s3 s4 s5 s6)
  show "(\<exists>k. task_id r = JStr k \<and> k \<noteq> []) \<and>
     is_str (assignees r) \<and> is_str (page_url r) \<and> is_str (date_closed r) \<and>
     \<not> nullish (task_name r) \<and> \<not> nullish (status r) \<and> \<not> nullish (url r) \<and>
     (\<exists>t\<in>set tasks. isDone t \<and> to_record stringify fieldName t = Inr r \<and>
        (\<not> truthy (get_prop t ''name'') \<longrightarrow> task_name r = JStr []) \<and>
        (is_str (get_prop t ''name'') \<longrightarrow> is_str (task_name r)) \<and>
        (\<not> truthy (get_prop (get_prop t ''status'') ''status'') \<longrightarrow> status r = JStr []) \<and>
        (is_str (get_prop (get_prop t ''status'') ''status'') \<longrightarrow> is_str (status r)) \<and>
        (\<not> truthy (get_prop t ''url'') \<longrightarrow> url r = JStr []) \<and>
        (is_str (get_prop t ''url'') \<longrightarrow> is_str (url r)))"
    by (intro conjI id a1 a2 a3 n1 n2 n3 ex)
qed

theorem normalize_tasks_fields_witness:
  "normalize_tasks (\<lambda>v. None) ''Page URL''
     [JObj [(''id'', JStr ''1''), (''status'', JObj [(''status'', JStr ''done'')]), (''name'', JStr ''n'')]]
   = Inr [\<lparr>task_id = JStr ''1'', task_name = JStr ''n'', status = JStr ''done'', assignees = JStr [],
           page_url = JStr [], date_closed = JStr [], url = JStr []\<rparr>] \<and>
   is_str (url \<lparr>task_id = JStr ''1'', task_name = JStr ''n'', status = JStr ''done'',
           assignees = JStr [], page_url = JStr [], date_closed = JStr [], url = JStr []\<rparr>)"
proof -
  have d: "isDone (JObj [(''id'', JStr ''1''), (''status'', JObj [(''status'', JStr ''done'')]),
      (''name'', JStr ''n'')])"
    by code_simp
  have r: "to_record (\<lambda>v. None) ''Page URL''
      (JObj [(''id'', JStr ''1''), (''status'', JObj [(''status'', JStr ''done'')]), (''name'', JStr ''n'')])
    = Inr \<lparr>task_id = JStr ''1'', task_name = JStr ''n'', status = JStr ''done'', assignees = JStr [],
           page_url = JStr [], date_closed = JStr [], url = JStr []\<rparr>"
    by code_simp
  have n: "normalize_tasks (\<lambda>v. None) ''Page URL''
     [JObj [(''id'', JStr ''1''), (''status'', JObj [(''status'', JStr ''done'')]), (''name'', JStr ''n'')]]
   = Inr [\<lparr>task_id = JStr ''1'', task_name = JStr ''n'', status = JStr ''done'', assignees = JStr [],
           page_url = JStr [], date_closed = JStr [], url = JStr []\<rparr>]"
    by (simp add: normalize_tasks_def d r)
  from normalize_tasks_fields [OF n] n show ?thesis
    by simp
qed

text \<open>
  The claim as written makes all seven fields strings for every input; a task whose
  name is the number 5 gives a record whose name is that number.
\<close>

theorem normalize_tasks_name_counterexample:
  "normalize_tasks (\<lambda>v. None) ''Page URL''
     [JObj [(''id'', JStr ''1''), (''status'', JObj [(''status'', JStr ''done'')]), (''name'', JNum 5)]]
   = Inr [\<lparr>task_id = JStr ''1'', task_name = JNum 5, status = JStr ''done'', assignees = JStr [],
           page_url = JStr [], date_closed = JStr [], url = JStr []\<rparr>] \<and>
   \<not> is_str (task_name \<lparr>task_id = JStr ''1'', task_name = JNum 5, status = JStr ''done'',
           assignees = JStr [], page_url = JStr [], date_closed = JStr [], url = JStr []\<rparr>)"
proof -
  have d: "isDone (JObj [(''id'', JStr ''1''), (''status'', JObj [(''status'', JStr ''done'')]),
      (''name'', JNum 5)])"
    by code_simp
  have r: "to_record (\<lambda>v. None) ''Page URL''
      (JObj [(''id'', JStr ''1''), (''status'', JObj [(''status'', JStr ''done'')]), (''name'', JNum 5)])
    = Inr \<lparr>task_id = JStr ''1'', task_name = JNum 5, status = JStr ''done'', assignees = JStr [],
           page_url = JStr [], date_closed = JStr [], url = JStr []\<rparr>"
    by code_simp
  show ?thesis
    by (simp add: normalize_tasks_def d r)
qed

section \<open>Properties of the paginator\<close>

lemma team_loop_never_returns:
  assumes "fetchAllTasksFromTeam_loop src page all = Some r"
  shows "\<not> (\<forall>p. \<exists>ts. src p = Inr ts \<and> ts \<noteq> [])"
proof (rule fetchAllTasksFromTeam_loop.raw_induct
    [where P = "\<lambda>src page all r. \<not> (\<forall>p. \<exists>ts. src p = Inr ts \<and> ts \<noteq> [])", OF _ assms])
  fix loop :: "page_source \<Rightarrow> nat \<Rightarrow> jsval list \<Rightarrow> (error + jsval list) option"
    and src :: page_source and page all r
  assume IH: "\<And>src page all r. loop src page all = Some r \<Longrightarrow>
      \<not> (\<forall>p. \<exists>ts. src p = Inr ts \<and> ts \<noteq> [])"
    and step: "(case src page of
        Inl e \<Rightarrow> Some (Inl e)
      | Inr tasks \<Rightarrow>
          if tasks = [] then Some (Inr (all @ tasks))
          else loop src (page + 1) (all @ tasks)) = Some r"
  show "\<not> (\<forall>p. \<exists>ts. src p = Inr ts \<and> ts \<noteq> [])"
  proof
    assume nz: "\<forall>p. \<exists>ts. src p = Inr ts \<and> ts \<noteq> []"
    then obtain ts where "src page = Inr ts" "ts \<noteq> []" by blast
    with step have "loop src (page + 1) (all @ ts) = Some r" by simp
    from IH [OF this] nz show False by blast
  qed
qed

text \<open>
  C3. The team-scoped script has no bound on the number of pages: against a source
  that returns one task on every page, \<open>fetchAllTasksFromTeam\<close> never returns. Only
  the list-scoped script has the cap (\<open>if (page > 200) break\<close>), for which the
  lemmas below show the bound of 201 requests.
\<close>

theorem fetchAllTasksFromTeam_unbounded:
  "fetchAllTasksFromTeam (\<lambda>page. Inr [JObj [(''id'', JStr ''1'')]]) = None"
proof (cases "fetchAllTasksFromTeam (\<lambda>page. Inr [JObj [(''id'', JStr ''1'')]])")
  case None
  then show ?thesis .
next
  case (Some r)
  then have "fetchAllTasksFromTeam_loop (\<lambda>page. Inr [JObj [(''id'', JStr ''1'')]]) 0 [] = Some r"
    by (simp only: fetchAllTasksFromTeam_def)
  from team_loop_never_returns [OF this] show ?thesis by simp
qed

text \<open>
  The list-scoped script always returns, and reads no page beyond page 200: two sources
  that agree on the pages 0 to 200 give the same result. It stops at the first empty
  page, and at the cap it returns the tasks of the 201 pages read.
\<close>

lemma list_loop_pages:
  "page \<le> 200 \<Longrightarrow> (\<forall>p. page \<le> p \<and> p \<le> 200 \<longrightarrow> src p = src' p) \<Longrightarrow>
   fetchAllTasksFromList_loop src page all = fetchAllTasksFromList_loop src' page all"
proof (induction src page all rule: fetchAllTasksFromList_loop.induct)
  case (1 src page all)
  from "1.prems" have same: "src page = src' page" by simp
  show ?case
  proof (cases "src' page")
    case (Inl e)
    with same show ?thesis by (simp add: fetchAllTasksFromList_loop.simps)
  next
    case (Inr ts)
    show ?thesis
    proof (cases "ts = [] \<or> page + 1 > 200")
      case True
      with same Inr show ?thesis
        by (auto simp: fetchAllTasksFromList_loop.simps [of src page] fetchAllTasksFromList_loop.simps [of src' page])
    next
      case False
      with "1.prems" have "page + 1 \<le> 200" "\<forall>p. page + 1 \<le> p \<and> p \<le> 200 \<longrightarrow> src p = src' p"
        by auto
      with "1.IH" [of ts] same Inr False
      have "fetchAllTasksFromList_loop src (page + 1) (all @ ts) =
          fetchAllTasksFromList_loop src' (page + 1) (all @ ts)" by simp
      with same Inr False show ?thesis
        by (simp add: fetchAllTasksFromList_loop.simps [of src page] fetchAllTasksFromList_loop.simps [of src' page])
    qed
  qed
qed

lemma fetchAllTasksFromList_bounded:
  "(\<forall>p\<le>200. src p = src' p) \<Longrightarrow> fetchAllTasksFromList src = fetchAllTasksFromList src'"
  unfolding fetchAllTasksFromList_def by (rule list_loop_pages) simp_all

lemma list_loop_first_empty:
  "src (page + k) = Inr [] \<Longrightarrow> (\<forall>i<k. \<exists>ts. src (page + i) = Inr ts \<and> ts \<noteq> []) \<Longrightarrow>
   page + k \<le> 200 \<Longrightarrow>
   fetchAllTasksFromList_loop src page all =
     Inr (all @ concat (map (page_tasks src) [page..<page + k]))"
proof (induction k arbitrary: page all)
  case 0
  then show ?case by (simp add: fetchAllTasksFromList_loop.simps [of src page])
next
  case (Suc k)
  from Suc.prems(2) have "\<exists>ts. src (page + 0) = Inr ts \<and> ts \<noteq> []" by blast
  then obtain ts where ts: "src page = Inr ts" "ts \<noteq> []" by auto
  have a: "src (page + 1 + k) = Inr []" using Suc.prems(1) by simp
  have b: "\<forall>i<k. \<exists>ts. src (page + 1 + i) = Inr ts \<and> ts \<noteq> []"
  proof (intro allI impI)
    fix i assume "i < k"
    then have "Suc i < Suc k" by simp
    with Suc.prems(2) have "\<exists>ts. src (page + Suc i) = Inr ts \<and> ts \<noteq> []" by blast
    then show "\<exists>ts. src (page + 1 + i) = Inr ts \<and> ts \<noteq> []" by simp
  qed
  have c: "page + 1 + k \<le> 200" using Suc.prems(3) by simp
  from Suc.IH [OF a b c]
  have ih: "fetchAllTasksFromList_loop src (page + 1) (all @ ts) =
     Inr ((all @ ts) @ concat (map (page_tasks src) [page + 1..<page + 1 + k]))" .
  have u: "[page..<page + Suc k] = page # [page + 1..<page + 1 + k]"
    by (simp add: upt_conv_Cons del: upt_Suc)
  have p: "page_tasks src page = ts" using ts by (simp add: page_tasks_def)
  from c have nl: "\<not> page + 1 > 200" by simp
  have "fetchAllTasksFromList_loop src page all =
      fetchAllTasksFromList_loop src (page + 1) (all @ ts)"
    using ts nl by (subst fetchAllTasksFromList_loop.simps) simp
  with ih show ?case by (simp only: u p list.map concat.simps append_assoc)
qed

lemma list_loop_cap:
  "page \<le> 200 \<Longrightarrow> (\<forall>p. page \<le> p \<and> p \<le> 200 \<longrightarrow> (\<exists>ts. src p = Inr ts \<and> ts \<noteq> [])) \<Longrightarrow>
   fetchAllTasksFromList_loop src page all =
     Inr (all @ concat (map (page_tasks src) [page..<201]))"
proof (induction "200 - page" arbitrary: page all)
  case 0
  then have page: "page = 200" by simp
  from "0.prems"(2) page obtain ts where ts: "src 200 = Inr ts" "ts \<noteq> []" by auto
  have "[200..<201] = [200::nat]" by (simp add: upt_conv_Cons del: upt_Suc)
  with ts show ?case
    unfolding page by (subst fetchAllTasksFromList_loop.simps) (simp add: page_tasks_def)
next
  case (Suc d)
  then have lt: "page < 200" by simp
  from Suc.prems(2) lt obtain ts where ts: "src page = Inr ts" "ts \<noteq> []" by force
  have a: "d = 200 - (page + 1)" using Suc.hyps(2) by simp
  have b: "page + 1 \<le> 200" using lt by simp
  have c: "\<forall>p. page + 1 \<le> p \<and> p \<le> 200 \<longrightarrow> (\<exists>ts. src p = Inr ts \<and> ts \<noteq> [])"
    using Suc.prems(2) by simp
  from Suc.hyps(1) [OF a b c]
  have ih: "fetchAllTasksFromList_loop src (page + 1) (all @ ts) =
     Inr ((all @ ts) @ concat (map (page_tasks src) [page + 1..<201]))" .
  have u: "[page..<201] = page # [page + 1..<201]"
    using lt by (simp add: upt_conv_Cons del: upt_Suc)
  have p: "page_tasks src page = ts" using ts by (simp add: page_tasks_def)
  from lt have nl: "\<not> page + 1 > 200" by simp
  have "fetchAllTasksFromList_loop src page all =
      fetchAllTasksFromList_loop src (page + 1) (all @ ts)"
    using ts nl by (subst fetchAllTasksFromList_loop.simps) simp
  with ih show ?case by (simp only: u p list.map concat.simps append_assoc)
qed

text \<open>Without the cap, the team-scoped loop still stops at the first empty page.\<close>

lemma team_loop_first_empty:
  "src (page + k) = Inr [] \<Longrightarrow> (\<forall>i<k. \<exists>ts. src (page + i) = Inr ts \<and> ts \<noteq> []) \<Longrightarrow>
   fetchAllTasksFromTeam_loop src page all =
     Some (Inr (all @ concat (map (page_tasks src) [page..<page + k])))"
proof (induction k arbitrary: page all)
  case 0
  then show ?case by (subst fetchAllTasksFromTeam_loop.simps) simp
next
  case (Suc k)
  from Suc.prems(2) have "\<exists>ts. src (page + 0) = Inr ts \<and> ts \<noteq> []" by blast
  then obtain ts where ts: "src page = Inr ts" "ts \<noteq> []" by auto
  have a: "src (page + 1 + k) = Inr []" using Suc.prems(1) by simp
  have b: "\<forall>i<k. \<exists>ts. src (page + 1 + i) = Inr ts \<and> ts \<noteq> []"
  proof (intro allI impI)
    fix i assume "i < k"
    then have "Suc i < Suc k" by simp
    with Suc.prems(2) have "\<exists>ts. src (page + Suc i) = Inr ts \<and> ts \<noteq> []" by blast
    then show "\<exists>ts. src (page + 1 + i) = Inr ts \<and> ts \<noteq> []" by simp
  qed
  from Suc.IH [OF a b]
  have ih: "fetchAllTasksFromTeam_loop src (page + 1) (all @ ts) =
     Some (Inr ((all @ ts) @ concat (map (page_tasks src) [page + 1..<page + 1 + k])))" .
  have u: "[page..<page + Suc k] = page # [page + 1..<page + 1 + k]"
    by (simp add: upt_conv_Cons del: upt_Suc)
  have p: "page_tasks src page = ts" using ts by (simp add: page_tasks_def)
  have "fetchAllTasksFromTeam_loop src page all =
      fetchAllTasksFromTeam_loop src (page + 1) (all @ ts)"
    using ts by (subst fetchAllTasksFromTeam_loop.simps) simp
  with ih show ?case by (simp only: u p list.map concat.simps append_assoc)
qed

section \<open>Properties of the header guard\<close>

lemma HEADERS_length: "length HEADERS = 7"
  by (simp add: HEADERS_def)

lemma header_ok_HEADERS: "header_ok (map JStr HEADERS)"
  by code_simp

lemma header_ok_first:
  assumes "header_ok r"
  shows "r \<noteq> [] \<and> trim (to_string (hd r)) = ''task_id''"
proof -
  from assms have "length r = 7" by (simp add: header_ok_def HEADERS_length)
  then obtain c cs where r: "r = c # cs" by (cases r) simp_all
  with assms show ?thesis by (simp add: header_ok_def HEADERS_def)
qed

lemma header_not_ok_empty:
  assumes "\<forall>c\<in>set r. c = JStr []"
  shows "\<not> header_ok r"
proof
  assume ok: "header_ok r"
  from header_ok_first [OF ok] have ne: "r \<noteq> []" and t: "trim (to_string (hd r)) = ''task_id''"
    by simp_all
  from ne assms have "hd r = JStr []" by (cases r) simp_all
  with t show False by (simp add: trim_def)
qed

lemma values_get_header_write:
  "values_get_header (write_row 1 (map JStr HEADERS) s) = map JStr HEADERS"
  by (cases s) (simp_all add: values_get_header_def write_row_def HEADERS_length)

lemma ensureHeaderRow_after_write:
  "ensureHeaderRow (write_row 1 (map JStr HEADERS) s) = ([], write_row 1 (map JStr HEADERS) s)"
  unfolding ensureHeaderRow_def Let_def values_get_header_write
  using header_ok_HEADERS by simp

lemma write_row_first:
  "write_row 1 vals s = (vals @ drop (length vals) (case s of [] \<Rightarrow> [] | r # rest \<Rightarrow> r)) # drop 1 s"
  by (cases s) (simp_all add: write_row_def)

text \<open>
  C8. Against a store whose first row is empty (no cells, or only empty cells in the
  columns A to G) the header guard sends one write: the seven column names
  \<open>task_id\<close>, \<open>task_name\<close>, \<open>status\<close>, \<open>assignees\<close>, \<open>page_url\<close>,
  \<open>date_closed\<close>, \<open>url\<close>, in that order, to row 1, leaving the other rows as they
  were. Run again on the resulting store, it finds the header in place and sends no
  write.
\<close>

theorem ensureHeaderRow_empty:
  assumes "\<forall>c\<in>set (values_get_header s). c = JStr []"
  shows "HEADERS = [''task_id'', ''task_name'', ''status'', ''assignees'', ''page_url'',
           ''date_closed'', ''url''] \<and>
         fst (ensureHeaderRow s) = [ValuesUpdate 1 (map JStr HEADERS)] \<and>
         values_get_header (snd (ensureHeaderRow s)) = map JStr HEADERS \<and>
         drop 1 (snd (ensureHeaderRow s)) = drop 1 s \<and>
         ensureHeaderRow (snd (ensureHeaderRow s)) = ([], snd (ensureHeaderRow s))"
proof -
  from header_not_ok_empty [OF assms]
  have e: "ensureHeaderRow s =
      ([ValuesUpdate 1 (map JStr HEADERS)], write_row 1 (map JStr HEADERS) s)"
    unfolding ensureHeaderRow_def Let_def by simp
  have d: "drop 1 (write_row 1 (map JStr HEADERS) s) = drop 1 s"
    unfolding write_row_first by simp
  show ?thesis
    unfolding e fst_conv snd_conv
    using values_get_header_write ensureHeaderRow_after_write d HEADERS_def by blast
qed

theorem ensureHeaderRow_empty_witness:
  "set (values_get_header []) = {} \<and>
   ensureHeaderRow [] = ([ValuesUpdate 1 (map JStr HEADERS)], [map JStr HEADERS]) \<and>
   ensureHeaderRow [map JStr HEADERS] = ([], [map JStr HEADERS])"
proof -
  have h: "set (values_get_header []) = {}"
    by (simp add: values_get_header_def)
  then have h': "\<forall>c\<in>set (values_get_header []). c = JStr []"
    by simp
  have s: "snd (ensureHeaderRow []) = [map JStr HEADERS]"
    by (simp add: ensureHeaderRow_def values_get_header_def header_ok_def HEADERS_length write_row_def)
  from ensureHeaderRow_empty [OF h'] h s show ?thesis
    by (simp add: prod_eq_iff)
qed

section \<open>Properties of the reconciler\<close>

subsection \<open>The row map and the schedule\<close>

lemma idToRow_loop_snoc:
  "idToRow_loop i (rows @ [r]) m =
     (case key_of r of
        Some k \<Rightarrow> (idToRow_loop i rows m)(k \<mapsto> i + length rows + 2)
      | None \<Rightarrow> idToRow_loop i rows m)"
proof (induction rows arbitrary: i m)
  case Nil
  show ?case by (simp add: key_of_def)
next
  case (Cons a rows)
  show ?case by (simp add: Cons.IH split: option.splits)
qed

lemma idToRow_loop_keys:
  "map key_of rows = map key_of rows' \<Longrightarrow> idToRow_loop i rows m = idToRow_loop i rows' m"
proof (induction rows arbitrary: rows' i m)
  case Nil
  then show ?case by simp
next
  case (Cons a rows)
  then obtain b rest where r: "rows' = b # rest" by (cases rows') auto
  with Cons.prems have k: "key_of a = key_of b" and ks: "map key_of rows = map key_of rest"
    by simp_all
  from k have "(if truthy (cell0 a) then m(to_string (cell0 a) \<mapsto> i + 2) else m) =
      (if truthy (cell0 b) then m(to_string (cell0 b) \<mapsto> i + 2) else m)"
    by (auto simp: key_of_def split: if_splits)
  then show ?case
    unfolding r using Cons.IH [OF ks] by (simp add: Let_def)
qed

lemma cell0_take: "cell0 (take 7 r) = cell0 r"
  by (cases r) (simp_all add: cell0_def)

lemma key_of_take: "key_of (take 7 r) = key_of r"
  by (simp add: key_of_def cell0_take)

lemma key_of_append: "a \<noteq> [] \<Longrightarrow> key_of (a @ b) = key_of a"
  by (cases a) (simp_all add: key_of_def cell0_def)

text \<open>The row map is read off the list of row keys: a key is sent to its last row.\<close>

lemma idToRow_sound:
  "idToRow_loop 0 rows Map.empty k = Some n \<Longrightarrow>
     2 \<le> n \<and> n < length rows + 2 \<and> key_of (rows ! (n - 2)) = Some k \<and>
     (\<forall>j. n - 2 < j \<and> j < length rows \<longrightarrow> key_of (rows ! j) \<noteq> Some k)"
proof (induction rows arbitrary: n rule: rev_induct)
  case Nil
  then show ?case by simp
next
  case (snoc r rows)
  show ?case
  proof (cases "key_of r = Some k")
    case True
    with snoc.prems have n: "n = length rows + 2"
      by (simp add: idToRow_loop_snoc)
    with True show ?thesis by auto
  next
    case False
    with snoc.prems have "idToRow_loop 0 rows Map.empty k = Some n"
      by (auto simp: idToRow_loop_snoc split: option.splits if_splits)
    from snoc.IH [OF this] have a: "2 \<le> n" and b: "n < length rows + 2"
      and c: "key_of (rows ! (n - 2)) = Some k"
      and d: "\<forall>j. n - 2 < j \<and> j < length rows \<longrightarrow> key_of (rows ! j) \<noteq> Some k"
      by blast+
    from b a have lt: "n - 2 < length rows" by arith
    have "\<forall>j. n - 2 < j \<and> j < length (rows @ [r]) \<longrightarrow> key_of ((rows @ [r]) ! j) \<noteq> Some k"
    proof (intro allI impI)
      fix j assume j: "n - 2 < j \<and> j < length (rows @ [r])"
      show "key_of ((rows @ [r]) ! j) \<noteq> Some k"
      proof (cases "j < length rows")
        case True
        with d j show ?thesis by (simp add: nth_append)
      next
        case False
        with j have "j = length rows" by simp
        with False \<open>key_of r \<noteq> Some k\<close> show ?thesis by (simp add: nth_append)
      qed
    qed
    with a b c lt show ?thesis by (simp add: nth_append)
  qed
qed

lemma idToRow_complete:
  "j < length rows \<Longrightarrow> key_of (rows ! j) = Some k \<Longrightarrow>
     \<exists>n. idToRow_loop 0 rows Map.empty k = Some n"
proof (induction rows rule: rev_induct)
  case Nil
  then show ?case by simp
next
  case (snoc r rows)
  show ?case
  proof (cases "key_of r")
    case None
    with snoc.prems have "j < length rows"
      by (cases "j = length rows") (auto simp: nth_append)
    with snoc.prems have "key_of (rows ! j) = Some k" by (simp add: nth_append)
    from snoc.IH [OF \<open>j < length rows\<close> this] None show ?thesis
      by (simp add: idToRow_loop_snoc)
  next
    case (Some k')
    show ?thesis
    proof (cases "k' = k")
      case True
      with Some show ?thesis by (simp add: idToRow_loop_snoc)
    next
      case False
      with Some snoc.prems have "j < length rows"
        by (cases "j = length rows") (auto simp: nth_append)
      with snoc.prems have "key_of (rows ! j) = Some k" by (simp add: nth_append)
      from snoc.IH [OF \<open>j < length rows\<close> this] Some False show ?thesis
        by (simp add: idToRow_loop_snoc)
    qed
  qed
qed

lemma idToRow_absent:
  assumes "\<forall>row\<in>set rows. key_of row \<noteq> Some k"
  shows "idToRow_loop 0 rows Map.empty k = None"
proof (rule ccontr)
  assume "idToRow_loop 0 rows Map.empty k \<noteq> None"
  then obtain n where "idToRow_loop 0 rows Map.empty k = Some n" by auto
  from idToRow_sound [OF this] have "n - 2 < length rows" "key_of (rows ! (n - 2)) = Some k"
    by auto
  with assms show False by (metis nth_mem)
qed

lemma schedule_closed:
  "schedule m rs us aps =
     (us @ map (\<lambda>r. (target m r, rowFromRecord r)) (filter (mapped m) rs),
      aps @ map rowFromRecord (filter (\<lambda>r. \<not> mapped m r) rs))"
proof (induction rs arbitrary: us aps)
  case Nil
  show ?case by simp
next
  case (Cons r rs)
  show ?case
    by (cases "map_get m (task_id r)") (simp_all add: Cons.IH mapped_def target_def)
qed

lemma upsert_plan_closed:
  "upsert_plan s rs =
     (map (\<lambda>r. (target (idToRow s) r, rowFromRecord r)) (filter (mapped (idToRow s)) rs),
      map rowFromRecord (filter (\<lambda>r. \<not> mapped (idToRow s) r) rs))"
  by (simp add: upsert_plan_def schedule_closed)

lemma rowFromRecord_length: "length (rowFromRecord r) = 7"
  by (simp add: rowFromRecord_def HEADERS_def)

lemma rowFromRecord_cell0: "cell0 (rowFromRecord r) = js_coalesce (task_id r) (JStr [])"
  by (simp add: rowFromRecord_def HEADERS_def cell0_def record_field_def)

lemma key_of_rowFromRecord:
  "task_id r = JStr k \<Longrightarrow> k \<noteq> [] \<Longrightarrow> key_of (rowFromRecord r) = Some k"
  by (simp add: key_of_def rowFromRecord_cell0 js_coalesce_def)

lemma write_row_in_range:
  "1 \<le> n \<Longrightarrow> n \<le> length s \<Longrightarrow>
     write_row n vals s = s[n - 1 := vals @ drop (length vals) (s ! (n - 1))]"
  by (simp add: write_row_def)

lemma batch_update_snoc:
  "batch_update (us @ [(n, vals)]) s = write_row n vals (batch_update us s)"
  by (simp add: batch_update_def)

lemma batch_update_Nil: "batch_update [] s = s"
  by (simp add: batch_update_def)

text \<open>
  A batch of whole-row overwrites inside the table keeps the number of rows, and
  leaves in each row the values of the last overwrite that names it.
\<close>

lemma batch_update_rows:
  assumes "\<forall>u\<in>set us. 1 \<le> fst u \<and> fst u \<le> length s \<and> length (snd u) = 7"
  shows "length (batch_update us s) = length s \<and>
    (\<forall>j<length s. batch_update us s ! j =
       (case map_of (rev us) (j + 1) of None \<Rightarrow> s ! j | Some vals \<Rightarrow> vals @ drop 7 (s ! j)))"
  using assms
proof (induction us rule: rev_induct)
  case Nil
  show ?case by (simp add: batch_update_Nil)
next
  case (snoc u us)
  obtain n vals where u: "u = (n, vals)" by (cases u)
  from snoc.prems have range: "1 \<le> n" "n \<le> length s" and len: "length vals = 7"
    and rest: "\<forall>u\<in>set us. 1 \<le> fst u \<and> fst u \<le> length s \<and> length (snd u) = 7"
    by (simp_all add: u)
  let ?t = "batch_update us s"
  from snoc.IH [OF rest] have lt: "length ?t = length s"
    and nth: "\<forall>j<length s. ?t ! j =
       (case map_of (rev us) (j + 1) of None \<Rightarrow> s ! j | Some vals \<Rightarrow> vals @ drop 7 (s ! j))"
    by blast+
  have w: "batch_update (us @ [(n, vals)]) s = ?t[n - 1 := vals @ drop 7 (?t ! (n - 1))]"
    using range lt len by (simp add: batch_update_snoc write_row_in_range)
  have d: "drop 7 (?t ! (n - 1)) = drop 7 (s ! (n - 1))"
  proof -
    from range have "n - 1 < length s" by arith
    with nth have "?t ! (n - 1) =
       (case map_of (rev us) (n - 1 + 1) of None \<Rightarrow> s ! (n - 1)
        | Some vals \<Rightarrow> vals @ drop 7 (s ! (n - 1)))" by blast
    moreover have "\<And>vs. map_of (rev us) (n - 1 + 1) = Some vs \<Longrightarrow> length vs = 7"
    proof -
      fix vs assume "map_of (rev us) (n - 1 + 1) = Some vs"
      then have "(n - 1 + 1, vs) \<in> set us" using map_of_SomeD by fastforce
      with rest show "length vs = 7" by fastforce
    qed
    ultimately show ?thesis by (cases "map_of (rev us) (n - 1 + 1)") simp_all
  qed
  have "\<forall>j<length s. batch_update (us @ [u]) s ! j =
       (case map_of (rev (us @ [u])) (j + 1) of None \<Rightarrow> s ! j
        | Some vals \<Rightarrow> vals @ drop 7 (s ! j))"
  proof (intro allI impI)
    fix j assume j: "j < length s"
    show "batch_update (us @ [u]) s ! j =
       (case map_of (rev (us @ [u])) (j + 1) of None \<Rightarrow> s ! j
        | Some vals \<Rightarrow> vals @ drop 7 (s ! j))"
    proof (cases "j = n - 1")
      case True
      with range have "j + 1 = n" by arith
      with True j lt d show ?thesis by (simp add: u w)
    next
      case False
      with range have "j + 1 \<noteq> n" by arith
      with False j lt nth show ?thesis by (simp add: u w)
    qed
  qed
  with lt show ?case by (simp add: u w)
qed

lemma batch_update_untouched:
  assumes "\<forall>u\<in>set us. 1 \<le> fst u \<and> fst u \<le> length s \<and> length (snd u) = 7"
    and "j < length s" and "j + 1 \<notin> fst ` set us"
  shows "batch_update us s ! j = s ! j"
proof -
  from assms(3) have "map_of (rev us) (j + 1) = None"
    by (simp add: map_of_eq_None_iff)
  with batch_update_rows [OF assms(1)] assms(2) show ?thesis by simp
qed

lemma nth_data:
  "1 \<le> j \<Longrightarrow> j < length s \<Longrightarrow> map (take 7) (drop 1 s) ! (j - 1) = take 7 (s ! j)"
  by (cases j) simp_all

lemma idToRow_range:
  assumes "idToRow s k = Some n"
  shows "2 \<le> n" and "n \<le> length s" and "key_of (s ! (n - 1)) = Some k"
    and "\<forall>j. n - 1 < j \<and> j < length s \<longrightarrow> key_of (s ! j) \<noteq> Some k"
proof -
  let ?data = "map (take 7) (drop 1 s)"
  from assms have m: "idToRow_loop 0 ?data Map.empty k = Some n"
    by (simp add: idToRow_def values_get_data_def)
  note snd = idToRow_sound [OF m]
  from snd show a: "2 \<le> n" by blast
  from snd have b: "n < length ?data + 2" by blast
  with a show c: "n \<le> length s" by (cases s) simp_all
  from a c have i: "n - 2 < length (drop 1 s)" by simp
  from snd have "key_of (?data ! (n - 2)) = Some k" by blast
  moreover from a c have "?data ! (n - 1 - 1) = take 7 (s ! (n - 1))" by (intro nth_data) auto
  moreover have "n - 1 - 1 = n - 2" by simp
  ultimately show "key_of (s ! (n - 1)) = Some k" by (simp add: key_of_take)
  from snd have last: "\<forall>j. n - 2 < j \<and> j < length ?data \<longrightarrow> key_of (?data ! j) \<noteq> Some k"
    by blast
  show "\<forall>j. n - 1 < j \<and> j < length s \<longrightarrow> key_of (s ! j) \<noteq> Some k"
  proof (intro allI impI)
    fix j assume j: "n - 1 < j \<and> j < length s"
    with a have "n - 2 < j - 1 \<and> j - 1 < length ?data" by auto
    with last have "key_of (?data ! (j - 1)) \<noteq> Some k" by blast
    moreover from j a have "?data ! (j - 1) = take 7 (s ! j)" by (intro nth_data) auto
    ultimately show "key_of (s ! j) \<noteq> Some k" by (simp add: key_of_take)
  qed
qed

lemma idToRow_last:
  assumes "1 \<le> b" and "b < length s" and "key_of (s ! b) = Some k"
    and "\<forall>j. b < j \<and> j < length s \<longrightarrow> key_of (s ! j) \<noteq> Some k"
  shows "idToRow s k = Some (b + 1)"
proof -
  let ?data = "map (take 7) (drop 1 s)"
  from assms(1,2) have "b - 1 < length ?data" by simp
  moreover from assms(1,2,3) have "key_of (?data ! (b - 1)) = Some k"
    by (simp only: nth_data key_of_take)
  ultimately obtain n where "idToRow_loop 0 ?data Map.empty k = Some n"
    using idToRow_complete by blast
  then have n: "idToRow s k = Some n" by (simp add: idToRow_def values_get_data_def)
  note r = idToRow_range [OF n]
  have "n - 1 = b"
  proof (rule ccontr)
    assume neq: "n - 1 \<noteq> b"
    show False
    proof (cases "n - 1 < b")
      case True
      with r(4) assms(2,3) show False by blast
    next
      case False
      with neq have "b < n - 1" by simp
      moreover from r(1,2) have "n - 1 < length s" by simp
      ultimately show False using assms(4) r(3) by blast
    qed
  qed
  with r(1) have "n = b + 1" by simp
  with n show ?thesis by simp
qed

lemma mappedD:
  assumes "mapped m r"
  shows "\<exists>k n. task_id r = JStr k \<and> m k = Some n \<and> n \<noteq> 0 \<and> target m r = n"
proof -
  from assms obtain n where g: "map_get m (task_id r) = Some n" and n: "n \<noteq> 0"
    by (auto simp: mapped_def split: option.splits)
  from g obtain k where "task_id r = JStr k" "m k = Some n"
    by (cases "task_id r") (simp_all add: map_get_def)
  with g n show ?thesis by (simp add: target_def)
qed

lemma upsert_updates_source:
  assumes "u \<in> set (fst (upsert_plan s rs))"
  shows "\<exists>r\<in>set rs. \<exists>k. task_id r = JStr k \<and> idToRow s k = Some (fst u) \<and> snd u = rowFromRecord r"
proof -
  from assms obtain r where r: "r \<in> set rs" "mapped (idToRow s) r"
    and u: "u = (target (idToRow s) r, rowFromRecord r)"
    by (auto simp: upsert_plan_closed)
  from mappedD [OF r(2)] u r(1) show ?thesis by auto
qed

lemma upsert_updates_ok:
  "\<forall>u\<in>set (fst (upsert_plan s rs)). 1 \<le> fst u \<and> fst u \<le> length s \<and> length (snd u) = 7"
proof
  fix u assume "u \<in> set (fst (upsert_plan s rs))"
  from upsert_updates_source [OF this] obtain r k where
    "idToRow s k = Some (fst u)" "snd u = rowFromRecord r" by blast
  with idToRow_range(1,2) [of s k "fst u"] show "1 \<le> fst u \<and> fst u \<le> length s \<and> length (snd u) = 7"
    by (simp add: rowFromRecord_length)
qed

lemma upsert_store:
  "snd (upsertByTaskId s rs) = batch_update (fst (upsert_plan s rs)) s @ snd (upsert_plan s rs)"
  by (cases "upsert_plan s rs")
     (simp add: upsertByTaskId_def batch_update_Nil append_rows_def)

lemma upsert_requests:
  "fst (upsertByTaskId s rs) =
     (if fst (upsert_plan s rs) \<noteq> [] then [BatchUpdate (fst (upsert_plan s rs))] else []) @
     (if snd (upsert_plan s rs) \<noteq> [] then [Append (snd (upsert_plan s rs))] else [])"
  by (cases "upsert_plan s rs") (simp add: upsertByTaskId_def)

lemma upsert_length:
  "length (snd (upsertByTaskId s rs)) = length s + length (snd (upsert_plan s rs))"
  using batch_update_rows [OF upsert_updates_ok, of s rs] by (simp add: upsert_store)

lemma upsert_row_untouched:
  assumes "j < length s" and "\<forall>r\<in>set rs. \<forall>k. task_id r = JStr k \<longrightarrow> idToRow s k \<noteq> Some (j + 1)"
  shows "snd (upsertByTaskId s rs) ! j = s ! j"
proof -
  have "j + 1 \<notin> fst ` set (fst (upsert_plan s rs))"
  proof
    assume "j + 1 \<in> fst ` set (fst (upsert_plan s rs))"
    then obtain u where u: "u \<in> set (fst (upsert_plan s rs))" "fst u = j + 1" by auto
    from upsert_updates_source [OF u(1)] u(2) assms(2) show False by auto
  qed
  from batch_update_untouched [OF upsert_updates_ok assms(1) this]
  have "batch_update (fst (upsert_plan s rs)) s ! j = s ! j" .
  moreover have "length (batch_update (fst (upsert_plan s rs)) s) = length s"
    using batch_update_rows [OF upsert_updates_ok, of s rs] by simp
  ultimately show ?thesis using assms(1) by (simp add: upsert_store nth_append)
qed

lemma upsert_row_cases:
  assumes "j < length s"
  shows "snd (upsertByTaskId s rs) ! j = s ! j \<or>
    (\<exists>r\<in>set rs. \<exists>k. task_id r = JStr k \<and> key_of (s ! j) = Some k \<and>
       snd (upsertByTaskId s rs) ! j = rowFromRecord r @ drop 7 (s ! j))"
proof -
  let ?us = "fst (upsert_plan s rs)"
  note br = batch_update_rows [OF upsert_updates_ok, of s rs]
  from br have len: "length (batch_update ?us s) = length s" by blast
  with assms have e: "snd (upsertByTaskId s rs) ! j = batch_update ?us s ! j"
    by (simp add: upsert_store nth_append)
  from br assms have tj: "batch_update ?us s ! j =
       (case map_of (rev ?us) (j + 1) of None \<Rightarrow> s ! j | Some vals \<Rightarrow> vals @ drop 7 (s ! j))"
    by blast
  show ?thesis
  proof (cases "map_of (rev ?us) (j + 1)")
    case None
    with e tj show ?thesis by simp
  next
    case (Some vals)
    then have "(j + 1, vals) \<in> set ?us" using map_of_SomeD by fastforce
    from upsert_updates_source [OF this] obtain r k where
      r: "r \<in> set rs" "task_id r = JStr k" and m: "idToRow s k = Some (j + 1)"
      and v: "vals = rowFromRecord r" by auto
    from idToRow_range(3) [OF m] have "key_of (s ! j) = Some k" by simp
    moreover from e tj Some v have "snd (upsertByTaskId s rs) ! j = rowFromRecord r @ drop 7 (s ! j)"
      by simp
    ultimately show ?thesis using r by blast
  qed
qed

text \<open>
  C9. A run never removes a row: the store after it has the old rows, in place, followed
  by the appended rows. The header row, and every data row whose key is not the task
  id of an incoming record, is unchanged; each scheduled overwrite targets the row the
  map gives for the task id of an incoming record; and an old row that changes has its
  columns A to G replaced by the values of an incoming record with the row's key, the
  cells to the right kept.
\<close>

theorem upsert_frame:
  "length s \<le> length (snd (upsertByTaskId s rs)) \<and>
   (\<forall>j<length s.
      (j = 0 \<or> (\<forall>r\<in>set rs. \<forall>k. task_id r = JStr k \<longrightarrow> key_of (s ! j) \<noteq> Some k)) \<longrightarrow>
      snd (upsertByTaskId s rs) ! j = s ! j) \<and>
   drop (length s) (snd (upsertByTaskId s rs)) = snd (upsert_plan s rs) \<and>
   (\<forall>u\<in>set (fst (upsert_plan s rs)).
      \<exists>r\<in>set rs. \<exists>k. task_id r = JStr k \<and> idToRow s k = Some (fst u) \<and> snd u = rowFromRecord r) \<and>
   (\<forall>j<length s.
      snd (upsertByTaskId s rs) ! j = s ! j \<or>
      (\<exists>r\<in>set rs. \<exists>k. task_id r = JStr k \<and> key_of (s ! j) = Some k \<and>
         snd (upsertByTaskId s rs) ! j = rowFromRecord r @ drop 7 (s ! j)))"
proof (intro conjI)
  show "\<forall>j<length s.
      snd (upsertByTaskId s rs) ! j = s ! j \<or>
      (\<exists>r\<in>set rs. \<exists>k. task_id r = JStr k \<and> key_of (s ! j) = Some k \<and>
         snd (upsertByTaskId s rs) ! j = rowFromRecord r @ drop 7 (s ! j))"
    using upsert_row_cases by blast
  show "length s \<le> length (snd (upsertByTaskId s rs))"
    by (simp add: upsert_length)
  show "\<forall>j<length s.
      (j = 0 \<or> (\<forall>r\<in>set rs. \<forall>k. task_id r = JStr k \<longrightarrow> key_of (s ! j) \<noteq> Some k)) \<longrightarrow>
      snd (upsertByTaskId s rs) ! j = s ! j"
  proof (intro allI impI)
    fix j assume j: "j < length s"
      and c: "j = 0 \<or> (\<forall>r\<in>set rs. \<forall>k. task_id r = JStr k \<longrightarrow> key_of (s ! j) \<noteq> Some k)"
    have "\<forall>r\<in>set rs. \<forall>k. task_id r = JStr k \<longrightarrow> idToRow s k \<noteq> Some (j + 1)"
    proof (intro ballI allI impI notI)
      fix r k assume r: "r \<in> set rs" "task_id r = JStr k" and m: "idToRow s k = Some (j + 1)"
      from idToRow_range(1,3) [OF m] have "1 \<le> j" and "key_of (s ! j) = Some k" by simp_all
      with c r show False by auto
    qed
    from upsert_row_untouched [OF j this] show "snd (upsertByTaskId s rs) ! j = s ! j" .
  qed
  have "length (batch_update (fst (upsert_plan s rs)) s) = length s"
    using batch_update_rows [OF upsert_updates_ok, of s rs] by simp
  then show "drop (length s) (snd (upsertByTaskId s rs)) = snd (upsert_plan s rs)"
    by (simp add: upsert_store)
  show "\<forall>u\<in>set (fst (upsert_plan s rs)).
      \<exists>r\<in>set rs. \<exists>k. task_id r = JStr k \<and> idToRow s k = Some (fst u) \<and> snd u = rowFromRecord r"
    using upsert_updates_source by blast
qed

theorem upsert_frame_witness:
  "1 < length [map JStr HEADERS, [JStr ''A'', JStr ''p''],
       [JStr ''B'', JStr ''q'', JStr ''1'', JStr ''2'', JStr ''3'', JStr ''4'', JStr ''5'', JStr ''note'']] \<and>
   key_of ([map JStr HEADERS, [JStr ''A'', JStr ''p''],
       [JStr ''B'', JStr ''q'', JStr ''1'', JStr ''2'', JStr ''3'', JStr ''4'', JStr ''5'', JStr ''note'']] ! 1)
     = Some ''A'' \<and>
   snd (upsertByTaskId
     [map JStr HEADERS, [JStr ''A'', JStr ''p''],
       [JStr ''B'', JStr ''q'', JStr ''1'', JStr ''2'', JStr ''3'', JStr ''4'', JStr ''5'', JStr ''note'']]
     [\<lparr>task_id = JStr ''B'', task_name = JStr ''new'', status = JStr [], assignees = JStr [],
        page_url = JStr [], date_closed = JStr [], url = JStr []\<rparr>,
      \<lparr>task_id = JStr ''C'', task_name = JStr ''c'', status = JStr [], assignees = JStr [],
        page_url = JStr [], date_closed = JStr [], url = JStr []\<rparr>]) ! 1
   = [map JStr HEADERS, [JStr ''A'', JStr ''p''],
       [JStr ''B'', JStr ''q'', JStr ''1'', JStr ''2'', JStr ''3'', JStr ''4'', JStr ''5'', JStr ''note'']] ! 1 \<and>
   snd (upsertByTaskId
     [map JStr HEADERS, [JStr ''A'', JStr ''p''],
       [JStr ''B'', JStr ''q'', JStr ''1'', JStr ''2'', JStr ''3'', JStr ''4'', JStr ''5'', JStr ''note'']]
     [\<lparr>task_id = JStr ''B'', task_name = JStr ''new'', status = JStr [], assignees = JStr [],
        page_url = JStr [], date_closed = JStr [], url = JStr []\<rparr>,
      \<lparr>task_id = JStr ''C'', task_name = JStr ''c'', status = JStr [], assignees = JStr [],
        page_url = JStr [], date_closed = JStr [], url = JStr []\<rparr>])
   = [map JStr HEADERS, [JStr ''A'', JStr ''p''],
      [JStr ''B'', JStr ''new'', JStr [], JStr [], JStr [], JStr [], JStr [], JStr ''note''],
      [JStr ''C'', JStr ''c'', JStr [], JStr [], JStr [], JStr [], JStr []]]"
proof -
  let ?S = "[map JStr HEADERS, [JStr ''A'', JStr ''p''],
       [JStr ''B'', JStr ''q'', JStr ''1'', JStr ''2'', JStr ''3'', JStr ''4'', JStr ''5'', JStr ''note'']]"
  let ?RB = "\<lparr>task_id = JStr ''B'', task_name = JStr ''new'', status = JStr [], assignees = JStr [],
        page_url = JStr [], date_closed = JStr [], url = JStr []\<rparr>"
  let ?RC = "\<lparr>task_id = JStr ''C'', task_name = JStr ''c'', status = JStr [], assignees = JStr [],
        page_url = JStr [], date_closed = JStr [], url = JStr []\<rparr>"
  let ?T = "snd (upsertByTaskId ?S [?RB, ?RC])"
  have len: "1 < length ?S" by simp
  have key: "key_of (?S ! 1) = Some ''A''" by code_simp
  have other: "\<forall>r\<in>set [?RB, ?RC]. \<forall>k. task_id r = JStr k \<longrightarrow> key_of (?S ! 1) \<noteq> Some k"
    unfolding key by simp
  from upsert_frame [of ?S "[?RB, ?RC]"] have
    f1: "\<forall>j<length ?S.
      (j = 0 \<or> (\<forall>r\<in>set [?RB, ?RC]. \<forall>k. task_id r = JStr k \<longrightarrow> key_of (?S ! j) \<noteq> Some k)) \<longrightarrow>
      ?T ! j = ?S ! j"
    and f2: "drop (length ?S) ?T = snd (upsert_plan ?S [?RB, ?RC])"
    by blast+
  from f1 len other have r1: "?T ! 1 = ?S ! 1" by blast
  have plan: "upsert_plan ?S [?RB, ?RC] = ([(3, rowFromRecord ?RB)], [rowFromRecord ?RC])"
    by code_simp
  have t: "?T = [map JStr HEADERS, [JStr ''A'', JStr ''p''],
      [JStr ''B'', JStr ''new'', JStr [], JStr [], JStr [], JStr [], JStr [], JStr ''note''],
      [JStr ''C'', JStr ''c'', JStr [], JStr [], JStr [], JStr [], JStr []]]"
    by code_simp
  from len key r1 t show ?thesis by blast
qed

lemma upsert_single:
  assumes "idToRow s k = Some n" and "task_id r = JStr k"
  shows "upsert_plan s [r] = ([(n, rowFromRecord r)], [])"
    and "snd (upsertByTaskId s [r]) = s[n - 1 := rowFromRecord r @ drop 7 (s ! (n - 1))]"
proof -
  from idToRow_range(1,2) [OF assms(1)] have n: "1 \<le> n" "n \<le> length s" "n \<noteq> 0" by simp_all
  from assms n(3) show p: "upsert_plan s [r] = ([(n, rowFromRecord r)], [])"
    by (simp add: upsert_plan_closed mapped_def target_def map_get_def)
  have "batch_update [(n, rowFromRecord r)] s = write_row n (rowFromRecord r) s"
    by (simp add: batch_update_def)
  with n(1,2) show "snd (upsertByTaskId s [r]) = s[n - 1 := rowFromRecord r @ drop 7 (s ! (n - 1))]"
    by (simp add: upsert_store p write_row_in_range rowFromRecord_length)
qed

text \<open>
  C2. When a task id occurs in several data rows, the row map sends it to the row of
  its last occurrence (\<open>Map.set\<close> replaces the earlier entry): with \<open>b\<close> the index
  of the last row holding key \<open>k\<close>, that is row number \<open>b + 1\<close>, a record with task
  id \<open>k\<close> overwrites columns A to G of that row, and every earlier row with the same
  key is left untouched by any run.
\<close>

theorem idToRow_last_occurrence:
  assumes "1 \<le> b" and "b < length s" and "key_of (s ! b) = Some k"
    and "\<forall>j. b < j \<and> j < length s \<longrightarrow> key_of (s ! j) \<noteq> Some k"
  shows "idToRow s k = Some (b + 1) \<and>
    (task_id r = JStr k \<longrightarrow>
       upsert_plan s [r] = ([(b + 1, rowFromRecord r)], []) \<and>
       snd (upsertByTaskId s [r]) = s[b := rowFromRecord r @ drop 7 (s ! b)]) \<and>
    (\<forall>a. a < b \<and> key_of (s ! a) = Some k \<longrightarrow> snd (upsertByTaskId s rs) ! a = s ! a)"
proof (intro conjI impI allI)
  show m: "idToRow s k = Some (b + 1)"
    using idToRow_last [OF assms] .
  {
    assume t: "task_id r = JStr k"
    from upsert_single(1) [OF m t] show "upsert_plan s [r] = ([(b + 1, rowFromRecord r)], [])" .
    from upsert_single(2) [OF m t]
    show "snd (upsertByTaskId s [r]) = s[b := rowFromRecord r @ drop 7 (s ! b)]" by simp
  }
  fix a assume a: "a < b \<and> key_of (s ! a) = Some k"
  have "\<forall>r'\<in>set rs. \<forall>k'. task_id r' = JStr k' \<longrightarrow> idToRow s k' \<noteq> Some (a + 1)"
  proof (intro ballI allI impI notI)
    fix r' k' assume m': "idToRow s k' = Some (a + 1)"
    from idToRow_range(3) [OF m'] a have "k' = k" by simp
    with m m' a show False by simp
  qed
  from upsert_row_untouched [OF _ this] a assms(2)
  show "snd (upsertByTaskId s rs) ! a = s ! a" by simp
qed

theorem idToRow_last_occurrence_witness:
  "(1::nat) \<le> 2 \<and>
   2 < length [map JStr HEADERS, [JStr ''A'', JStr ''p''], [JStr ''A'', JStr ''q''], [JStr ''B'', JStr ''z'']] \<and>
   key_of ([map JStr HEADERS, [JStr ''A'', JStr ''p''], [JStr ''A'', JStr ''q''], [JStr ''B'', JStr ''z'']] ! 2)
     = Some ''A'' \<and>
   key_of ([map JStr HEADERS, [JStr ''A'', JStr ''p''], [JStr ''A'', JStr ''q''], [JStr ''B'', JStr ''z'']] ! 3)
     \<noteq> Some ''A'' \<and>
   key_of ([map JStr HEADERS, [JStr ''A'', JStr ''p''], [JStr ''A'', JStr ''q''], [JStr ''B'', JStr ''z'']] ! 1)
     = Some ''A'' \<and>
   idToRow [map JStr HEADERS, [JStr ''A'', JStr ''p''], [JStr ''A'', JStr ''q''], [JStr ''B'', JStr ''z'']] ''A''
     = Some 3 \<and>
   snd (upsertByTaskId
     [map JStr HEADERS, [JStr ''A'', JStr ''p''], [JStr ''A'', JStr ''q''], [JStr ''B'', JStr ''z'']]
     [\<lparr>task_id = JStr ''A'', task_name = JStr ''new'', status = JStr [], assignees = JStr [],
        page_url = JStr [], date_closed = JStr [], url = JStr []\<rparr>])
   = [map JStr HEADERS, [JStr ''A'', JStr ''p''],
      [JStr ''A'', JStr ''new'', JStr [], JStr [], JStr [], JStr [], JStr []], [JStr ''B'', JStr ''z'']]"
proof -
  let ?S = "[map JStr HEADERS, [JStr ''A'', JStr ''p''], [JStr ''A'', JStr ''q''], [JStr ''B'', JStr ''z'']]"
  let ?R = "\<lparr>task_id = JStr ''A'', task_name = JStr ''new'', status = JStr [], assignees = JStr [],
        page_url = JStr [], date_closed = JStr [], url = JStr []\<rparr>"
  have h1: "(1::nat) \<le> 2" by simp
  have h2: "2 < length ?S" by simp
  have h3: "key_of (?S ! 2) = Some ''A''" by code_simp
  have k3: "key_of (?S ! 3) \<noteq> Some ''A''" by code_simp
  have k1: "key_of (?S ! 1) = Some ''A''" by code_simp
  have h4: "\<forall>j. 2 < j \<and> j < length ?S \<longrightarrow> key_of (?S ! j) \<noteq> Some ''A''"
  proof (intro allI impI)
    fix j assume "2 < j \<and> j < length ?S"
    then have "j = 3" by simp
    with k3 show "key_of (?S ! j) \<noteq> Some ''A''" by simp
  qed
  note th = idToRow_last_occurrence [OF h1 h2 h3 h4, of ?R "[?R]"]
  from th have m: "idToRow ?S ''A'' = Some 3" by simp
  have t: "task_id ?R = JStr ''A''" by simp
  from th t have "snd (upsertByTaskId ?S [?R]) = ?S[2 := rowFromRecord ?R @ drop 7 (?S ! 2)]"
    by blast
  moreover have "?S[2 := rowFromRecord ?R @ drop 7 (?S ! 2)] =
     [map JStr HEADERS, [JStr ''A'', JStr ''p''],
      [JStr ''A'', JStr ''new'', JStr [], JStr [], JStr [], JStr [], JStr []], [JStr ''B'', JStr ''z'']]"
    by code_simp
  ultimately have r: "snd (upsertByTaskId ?S [?R]) =
     [map JStr HEADERS, [JStr ''A'', JStr ''p''],
      [JStr ''A'', JStr ''new'', JStr [], JStr [], JStr [], JStr [], JStr []], [JStr ''B'', JStr ''z'']]"
    by simp
  from h1 h2 h3 k3 k1 m r show ?thesis by blast
qed

text \<open>
  The claim as written has the first occurrence win. With the key \<open>A\<close> in rows 2 and
  3, the map sends \<open>A\<close> to row 3, and the run overwrites row 3 and leaves row 2.
\<close>

theorem idToRow_first_occurrence_counterexample:
  "idToRow [map JStr HEADERS, [JStr ''A'', JStr ''p''], [JStr ''A'', JStr ''q'']] ''A'' \<noteq> Some 2 \<and>
   upsert_plan [map JStr HEADERS, [JStr ''A'', JStr ''p''], [JStr ''A'', JStr ''q'']]
     [\<lparr>task_id = JStr ''A'', task_name = JStr ''new'', status = JStr [], assignees = JStr [],
        page_url = JStr [], date_closed = JStr [], url = JStr []\<rparr>]
   = ([(3, [JStr ''A'', JStr ''new'', JStr [], JStr [], JStr [], JStr [], JStr []])], []) \<and>
   snd (upsertByTaskId [map JStr HEADERS, [JStr ''A'', JStr ''p''], [JStr ''A'', JStr ''q'']]
     [\<lparr>task_id = JStr ''A'', task_name = JStr ''new'', status = JStr [], assignees = JStr [],
        page_url = JStr [], date_closed = JStr [], url = JStr []\<rparr>])
   = [map JStr HEADERS, [JStr ''A'', JStr ''p''],
      [JStr ''A'', JStr ''new'', JStr [], JStr [], JStr [], JStr [], JStr []]]"
  by code_simp

text \<open>
  C10. The row map is built once and not updated while scheduling, so the appends are
  the rows of all records the map does not hold, in order, with no deduplication: two
  records sharing a task id that no data row holds are both appended, and the store
  gets two rows with that id.
\<close>

theorem upsert_no_dedup:
  "snd (upsert_plan s rs) = map rowFromRecord (filter (\<lambda>r. \<not> mapped (idToRow s) r) rs) \<and>
   ((\<forall>row\<in>set (values_get_data s). key_of row \<noteq> Some k) \<and> task_id r1 = JStr k \<and> task_id r2 = JStr k \<longrightarrow>
      idToRow s k = None \<and>
      upsert_plan s [r1, r2] = ([], [rowFromRecord r1, rowFromRecord r2]) \<and>
      snd (upsertByTaskId s [r1, r2]) = s @ [rowFromRecord r1, rowFromRecord r2])"
proof (intro conjI impI)
  show "snd (upsert_plan s rs) = map rowFromRecord (filter (\<lambda>r. \<not> mapped (idToRow s) r) rs)"
    by (simp add: upsert_plan_closed)
  assume h: "(\<forall>row\<in>set (values_get_data s). key_of row \<noteq> Some k) \<and> task_id r1 = JStr k \<and>
    task_id r2 = JStr k"
  then show m: "idToRow s k = None"
    by (simp add: idToRow_def idToRow_absent)
  with h show p: "upsert_plan s [r1, r2] = ([], [rowFromRecord r1, rowFromRecord r2])"
    by (simp add: upsert_plan_closed mapped_def map_get_def)
  then show "snd (upsertByTaskId s [r1, r2]) = s @ [rowFromRecord r1, rowFromRecord r2]"
    by (simp add: upsert_store batch_update_Nil)
qed

theorem upsert_no_dedup_witness:
  "key_of [JStr ''A'', JStr ''p''] \<noteq> Some ''T1'' \<and>
   idToRow [map JStr HEADERS, [JStr ''A'', JStr ''p'']] ''T1'' = None \<and>
   upsertByTaskId [map JStr HEADERS, [JStr ''A'', JStr ''p'']]
     [\<lparr>task_id = JStr ''T1'', task_name = JStr ''one'', status = JStr [], assignees = JStr [],
        page_url = JStr [], date_closed = JStr [], url = JStr []\<rparr>,
      \<lparr>task_id = JStr ''T1'', task_name = JStr ''two'', status = JStr [], assignees = JStr [],
        page_url = JStr [], date_closed = JStr [], url = JStr []\<rparr>]
   = ([Append [[JStr ''T1'', JStr ''one'', JStr [], JStr [], JStr [], JStr [], JStr []],
               [JStr ''T1'', JStr ''two'', JStr [], JStr [], JStr [], JStr [], JStr []]]],
      [map JStr HEADERS, [JStr ''A'', JStr ''p''],
       [JStr ''T1'', JStr ''one'', JStr [], JStr [], JStr [], JStr [], JStr []],
       [JStr ''T1'', JStr ''two'', JStr [], JStr [], JStr [], JStr [], JStr []]])"
proof -
  let ?S = "[map JStr HEADERS, [JStr ''A'', JStr ''p'']]"
  let ?R1 = "\<lparr>task_id = JStr ''T1'', task_name = JStr ''one'', status = JStr [], assignees = JStr [],
        page_url = JStr [], date_closed = JStr [], url = JStr []\<rparr>"
  let ?R2 = "\<lparr>task_id = JStr ''T1'', task_name = JStr ''two'', status = JStr [], assignees = JStr [],
        page_url = JStr [], date_closed = JStr [], url = JStr []\<rparr>"
  have k: "key_of [JStr ''A'', JStr ''p''] \<noteq> Some ''T1''" by code_simp
  have d: "values_get_data ?S = [[JStr ''A'', JStr ''p'']]" by (simp add: values_get_data_def)
  have h: "(\<forall>row\<in>set (values_get_data ?S). key_of row \<noteq> Some ''T1'') \<and>
      task_id ?R1 = JStr ''T1'' \<and> task_id ?R2 = JStr ''T1''"
    unfolding d using k by simp
  from upsert_no_dedup [of ?S "[?R1, ?R2]" "''T1''" ?R1 ?R2] h
  have m: "idToRow ?S ''T1'' = None"
    and p: "upsert_plan ?S [?R1, ?R2] = ([], [rowFromRecord ?R1, rowFromRecord ?R2])"
    by blast+
  have e: "upsertByTaskId ?S [?R1, ?R2]
   = ([Append [[JStr ''T1'', JStr ''one'', JStr [], JStr [], JStr [], JStr [], JStr []],
               [JStr ''T1'', JStr ''two'', JStr [], JStr [], JStr [], JStr [], JStr []]]],
      [map JStr HEADERS, [JStr ''A'', JStr ''p''],
       [JStr ''T1'', JStr ''one'', JStr [], JStr [], JStr [], JStr [], JStr []],
       [JStr ''T1'', JStr ''two'', JStr [], JStr [], JStr [], JStr [], JStr []]])"
    by code_simp
  from k m e show ?thesis by blast
qed

subsection \<open>Running twice\<close>

lemma keyedD: "keyed rs \<Longrightarrow> r \<in> set rs \<Longrightarrow> \<exists>k. task_id r = JStr k \<and> k \<noteq> []"
  by (cases "task_id r") (auto simp: keyed_def list_all_iff)

lemma keyed_snoc: "keyed (rs @ [x]) \<Longrightarrow> keyed rs \<and> (\<exists>k. task_id x = JStr k \<and> k \<noteq> [])"
  by (cases "task_id x") (simp_all add: keyed_def)

lemma lastrec_snoc:
  "lastrec (rs @ [x]) k = (if task_id x = JStr k then Some x else lastrec rs k)"
  by (simp add: lastrec_def)

lemma lastrec_Nil: "lastrec [] k = None"
  by (simp add: lastrec_def)

lemma lastrec_exists:
  "r \<in> set rs \<Longrightarrow> task_id r = JStr k \<Longrightarrow> \<exists>r'. lastrec rs k = Some r'"
  by (cases "lastrec rs k") (auto simp: lastrec_def find_None_iff)

lemma lastrec_SomeD:
  "lastrec rs k = Some r \<Longrightarrow> r \<in> set rs \<and> task_id r = JStr k"
proof (induction rs rule: rev_induct)
  case Nil
  then show ?case by (simp add: lastrec_Nil)
next
  case (snoc x rs)
  show ?case
  proof (cases "task_id x = JStr k")
    case True
    with snoc.prems show ?thesis by (simp add: lastrec_snoc)
  next
    case False
    with snoc.prems have "lastrec rs k = Some r" by (simp add: lastrec_snoc)
    from snoc.IH [OF this] show ?thesis by simp
  qed
qed

text \<open>Overwrites of mapped rows by records with non-empty ids keep every row's key.\<close>

lemma upsert_keys_preserved:
  assumes "keyed rs"
  shows "map key_of (batch_update (fst (upsert_plan s rs)) s) = map key_of s"
proof -
  let ?us = "fst (upsert_plan s rs)"
  let ?t = "batch_update ?us s"
  note br = batch_update_rows [OF upsert_updates_ok, of s rs]
  from br have len: "length ?t = length s" by blast
  have "\<forall>j<length s. key_of (?t ! j) = key_of (s ! j)"
  proof (intro allI impI)
    fix j assume j: "j < length s"
    with br have tj: "?t ! j =
       (case map_of (rev ?us) (j + 1) of None \<Rightarrow> s ! j | Some vals \<Rightarrow> vals @ drop 7 (s ! j))"
      by blast
    show "key_of (?t ! j) = key_of (s ! j)"
    proof (cases "map_of (rev ?us) (j + 1)")
      case None
      with tj show ?thesis by simp
    next
      case (Some vals)
      then have "(j + 1, vals) \<in> set ?us" using map_of_SomeD by fastforce
      from upsert_updates_source [OF this] obtain r k where
        r: "r \<in> set rs" "task_id r = JStr k" and m: "idToRow s k = Some (j + 1)"
        and v: "vals = rowFromRecord r" by auto
      from keyedD [OF assms r(1)] r(2) have k: "k \<noteq> []" by simp
      from idToRow_range(3) [OF m] have "key_of (s ! j) = Some k" by simp
      moreover have "key_of (vals @ drop 7 (s ! j)) = Some k"
        using key_of_rowFromRecord [OF r(2) k] rowFromRecord_length [of r]
        by (simp add: v key_of_append [of "rowFromRecord r"] length_0_conv [symmetric] del: length_0_conv)
      ultimately show ?thesis using tj Some by simp
    qed
  qed
  with len show ?thesis by (simp add: list_eq_iff_nth_eq)
qed

lemma idToRow_loop_key_append:
  "map key_of rows = map key_of rows' \<Longrightarrow>
   idToRow_loop 0 (map (take 7) (rows @ A)) Map.empty = idToRow_loop 0 (rows' @ A) Map.empty"
  by (rule idToRow_loop_keys) (simp add: key_of_take comp_def)

lemma idToRow_after:
  assumes "keyed rs" and "s \<noteq> []"
  shows "idToRow (snd (upsertByTaskId s rs)) =
     idToRow_loop 0 (drop 1 s @ snd (upsert_plan s rs)) Map.empty"
proof -
  let ?t = "batch_update (fst (upsert_plan s rs)) s"
  from upsert_keys_preserved [OF assms(1)] have k: "map key_of ?t = map key_of s" .
  then have "length ?t = length s" using map_eq_imp_length_eq by blast
  with assms(2) have ne: "?t \<noteq> []" by auto
  from k have "map key_of (drop 1 ?t) = map key_of (drop 1 s)"
    by (simp only: drop_map [symmetric])
  from idToRow_loop_key_append [OF this]
  have "idToRow_loop 0 (map (take 7) (drop 1 ?t @ snd (upsert_plan s rs))) Map.empty =
      idToRow_loop 0 (drop 1 s @ snd (upsert_plan s rs)) Map.empty" .
  moreover from ne have "drop 1 (?t @ snd (upsert_plan s rs)) = drop 1 ?t @ snd (upsert_plan s rs)"
    by (cases ?t) simp_all
  ultimately show ?thesis
    by (simp add: idToRow_def values_get_data_def upsert_store)
qed

lemma idToRow_data:
  "idToRow s = idToRow_loop 0 (drop 1 s) Map.empty"
  unfolding idToRow_def values_get_data_def
  by (rule idToRow_loop_keys) (simp add: key_of_take comp_def)

lemma idToRow_loop_append_other:
  "\<forall>a\<in>set A. key_of a \<noteq> Some k \<Longrightarrow>
   idToRow_loop 0 (D @ A) Map.empty k = idToRow_loop 0 D Map.empty k"
proof (induction A rule: rev_induct)
  case Nil
  show ?case by simp
next
  case (snoc a A)
  then have "key_of a \<noteq> Some k" and "\<forall>a\<in>set A. key_of a \<noteq> Some k" by simp_all
  with snoc.IH show ?case
    by (simp add: append_assoc [symmetric] idToRow_loop_snoc del: append_assoc split: option.splits)
qed

lemma mapped_JStr:
  "task_id x = JStr kx \<Longrightarrow> mapped m x = (case m kx of Some n \<Rightarrow> n \<noteq> 0 | None \<Rightarrow> False)"
  by (simp add: mapped_def map_get_def)

lemma target_JStr:
  "task_id x = JStr kx \<Longrightarrow> m kx = Some n \<Longrightarrow> target m x = n"
  by (simp add: target_def map_get_def)

text \<open>
  In the updates scheduled from a row map that sends different keys to different rows,
  the last update of the row of key \<open>k\<close> comes from the last record with key \<open>k\<close>.
\<close>

lemma last_update_of_key:
  assumes inj: "\<And>k k' n. m k = Some n \<Longrightarrow> m k' = Some n \<Longrightarrow> k = k'"
    and pos: "\<And>k n. m k = Some n \<Longrightarrow> n \<noteq> 0"
  shows "keyed rs \<Longrightarrow> lastrec rs k = Some r \<Longrightarrow> m k = Some n \<Longrightarrow>
     map_of (rev (map (\<lambda>r. (target m r, rowFromRecord r)) (filter (mapped m) rs))) n =
       Some (rowFromRecord r)"
proof (induction rs rule: rev_induct)
  case Nil
  then show ?case by (simp add: lastrec_Nil)
next
  case (snoc x rs)
  from keyed_snoc [OF snoc.prems(1)] obtain kx where
    krs: "keyed rs" and kx: "task_id x = JStr kx" by blast
  from pos [OF snoc.prems(3)] have n0: "n \<noteq> 0" .
  show ?case
  proof (cases "kx = k")
    case True
    with snoc.prems(2) kx have "r = x" by (simp add: lastrec_snoc)
    moreover from True kx snoc.prems(3) n0 have "mapped m x" "target m x = n"
      by (simp_all add: mapped_JStr target_JStr)
    ultimately show ?thesis by simp
  next
    case False
    with snoc.prems(2) kx have "lastrec rs k = Some r" by (simp add: lastrec_snoc)
    from snoc.IH [OF krs this snoc.prems(3)]
    have ih: "map_of (rev (map (\<lambda>r. (target m r, rowFromRecord r)) (filter (mapped m) rs))) n =
       Some (rowFromRecord r)" .
    show ?thesis
    proof (cases "mapped m x")
      case False
      with ih show ?thesis by simp
    next
      case True
      then obtain n' where n': "m kx = Some n'"
        using kx by (cases "m kx") (simp_all add: mapped_JStr)
      with kx have t: "target m x = n'" by (simp add: target_JStr)
      from inj [of k n kx] snoc.prems(3) n' False have "n' \<noteq> n" by auto
      with True t ih show ?thesis by simp
    qed
  qed
qed

text \<open>
  The rows appended for the records whose key the old map does not hold: in the map
  read after the append, such a key points at the row appended for its last record.
\<close>

lemma appended_row_of_key:
  assumes pos: "\<And>k n. m k = Some n \<Longrightarrow> n \<noteq> 0"
  shows "keyed rs \<Longrightarrow> lastrec rs k = Some r \<Longrightarrow> m k = None \<Longrightarrow>
     \<exists>i<length (filter (\<lambda>r. \<not> mapped m r) rs).
        idToRow_loop 0 (D @ map rowFromRecord (filter (\<lambda>r. \<not> mapped m r) rs)) Map.empty k =
          Some (length D + i + 2) \<and>
        map rowFromRecord (filter (\<lambda>r. \<not> mapped m r) rs) ! i = rowFromRecord r"
proof (induction rs rule: rev_induct)
  case Nil
  then show ?case by (simp add: lastrec_Nil)
next
  case (snoc x rs)
  from keyed_snoc [OF snoc.prems(1)] obtain kx where
    krs: "keyed rs" and kx: "task_id x = JStr kx" and kne: "kx \<noteq> []" by blast
  let ?A = "map rowFromRecord (filter (\<lambda>r. \<not> mapped m r) rs)"
  show ?case
  proof (cases "mapped m x")
    case True
    then have "m kx \<noteq> None" using kx by (cases "m kx") (simp_all add: mapped_JStr)
    with snoc.prems(3) have "kx \<noteq> k" by auto
    with snoc.prems(2) kx have "lastrec rs k = Some r" by (simp add: lastrec_snoc)
    from snoc.IH [OF krs this snoc.prems(3)] True show ?thesis by simp
  next
    case False
    have step: "idToRow_loop 0 (D @ ?A @ [rowFromRecord x]) Map.empty =
        (idToRow_loop 0 (D @ ?A) Map.empty)(kx \<mapsto> length D + length ?A + 2)"
      using idToRow_loop_snoc [of 0 "D @ ?A" "rowFromRecord x" Map.empty]
        key_of_rowFromRecord [OF kx kne] by simp
    show ?thesis
    proof (cases "kx = k")
      case True
      with snoc.prems(2) kx have rx: "r = x" by (simp add: lastrec_snoc)
      have "length ?A < length (filter (\<lambda>r. \<not> mapped m r) (rs @ [x]))"
        using False by simp
      moreover have "idToRow_loop 0 (D @ map rowFromRecord (filter (\<lambda>r. \<not> mapped m r) (rs @ [x])))
          Map.empty k = Some (length D + length ?A + 2)"
        using False True by (simp add: step)
      moreover have "map rowFromRecord (filter (\<lambda>r. \<not> mapped m r) (rs @ [x])) ! length ?A =
          rowFromRecord r"
        using False rx by (simp add: nth_append)
      ultimately show ?thesis by blast
    next
      case neq: False
      with snoc.prems(2) kx have "lastrec rs k = Some r" by (simp add: lastrec_snoc)
      from snoc.IH [OF krs this snoc.prems(3)] obtain i where
        i: "i < length (filter (\<lambda>r. \<not> mapped m r) rs)"
        and mk: "idToRow_loop 0 (D @ ?A) Map.empty k = Some (length D + i + 2)"
        and ai: "?A ! i = rowFromRecord r" by blast
      have "i < length (filter (\<lambda>r. \<not> mapped m r) (rs @ [x]))"
        using i by simp
      moreover have "idToRow_loop 0 (D @ map rowFromRecord (filter (\<lambda>r. \<not> mapped m r) (rs @ [x])))
          Map.empty k = Some (length D + i + 2)"
        using False neq mk by (simp add: step)
      moreover have "map rowFromRecord (filter (\<lambda>r. \<not> mapped m r) (rs @ [x])) ! i =
          rowFromRecord r"
        using False i ai by (simp add: nth_append)
      ultimately show ?thesis by blast
    qed
  qed
qed

text \<open>The last update of a row comes from the last record of some key mapped to that row.\<close>

lemma last_update_source:
  assumes pos: "\<And>k n. M k = Some n \<Longrightarrow> n \<noteq> 0"
  shows "keyed rs \<Longrightarrow>
     map_of (rev (map (\<lambda>r. (target M r, rowFromRecord r)) (filter (mapped M) rs))) n = Some vals \<Longrightarrow>
     \<exists>r k. lastrec rs k = Some r \<and> M k = Some n \<and> vals = rowFromRecord r"
proof (induction rs rule: rev_induct)
  case Nil
  then show ?case by simp
next
  case (snoc x rs)
  from keyed_snoc [OF snoc.prems(1)] obtain kx where
    krs: "keyed rs" and kx: "task_id x = JStr kx" by blast
  show ?case
  proof (cases "mapped M x")
    case False
    with snoc.prems(2) have
      "map_of (rev (map (\<lambda>r. (target M r, rowFromRecord r)) (filter (mapped M) rs))) n = Some vals"
      by simp
    from snoc.IH [OF krs this] obtain r k where
      l: "lastrec rs k = Some r" and mk: "M k = Some n" and v: "vals = rowFromRecord r" by blast
    from False kx pos have "M kx = None" by (cases "M kx") (auto simp: mapped_JStr)
    with mk have "kx \<noteq> k" by auto
    with l kx have "lastrec (rs @ [x]) k = Some r" by (simp add: lastrec_snoc)
    with mk v show ?thesis by blast
  next
    case True
    then obtain n' where n': "M kx = Some n'"
      using kx by (cases "M kx") (simp_all add: mapped_JStr)
    with kx have t: "target M x = n'" by (simp add: target_JStr)
    show ?thesis
    proof (cases "n' = n")
      case eq: True
      with snoc.prems(2) True t have "vals = rowFromRecord x" by simp
      moreover from kx have "lastrec (rs @ [x]) kx = Some x" by (simp add: lastrec_snoc)
      ultimately show ?thesis using n' eq by blast
    next
      case neq: False
      with snoc.prems(2) True t have
        "map_of (rev (map (\<lambda>r. (target M r, rowFromRecord r)) (filter (mapped M) rs))) n = Some vals"
        by simp
      from snoc.IH [OF krs this] obtain r k where
        l: "lastrec rs k = Some r" and mk: "M k = Some n" and v: "vals = rowFromRecord r" by blast
      from mk n' neq have "kx \<noteq> k" by auto
      with l kx have "lastrec (rs @ [x]) k = Some r" by (simp add: lastrec_snoc)
      with mk v show ?thesis by blast
    qed
  qed
qed

lemma idToRow_pos: "idToRow s k = Some n \<Longrightarrow> n \<noteq> 0"
  using idToRow_range(1) [of s k n] by simp

lemma idToRow_inj: "idToRow s k = Some n \<Longrightarrow> idToRow s k' = Some n \<Longrightarrow> k = k'"
  using idToRow_range(3) [of s k n] idToRow_range(3) [of s k' n] by simp

lemma unmapped_key:
  assumes "keyed rs" and "r \<in> set rs" and "\<not> mapped (idToRow s) r"
  shows "\<exists>k. task_id r = JStr k \<and> key_of (rowFromRecord r) = Some k \<and> idToRow s k = None"
proof -
  from keyedD [OF assms(1,2)] obtain k where k: "task_id r = JStr k" "k \<noteq> []" by blast
  from assms(3) k(1) have "idToRow s k = None"
    using idToRow_pos [of s k] by (cases "idToRow s k") (auto simp: mapped_JStr)
  with k key_of_rowFromRecord [OF k] show ?thesis by simp
qed

text \<open>The row map read after a run: old keys keep their rows.\<close>

lemma idToRow_after_old:
  assumes "keyed rs" and "s \<noteq> []" and "idToRow s k = Some n"
  shows "idToRow (snd (upsertByTaskId s rs)) k = Some n"
proof -
  have "\<forall>a\<in>set (snd (upsert_plan s rs)). key_of a \<noteq> Some k"
  proof
    fix a assume "a \<in> set (snd (upsert_plan s rs))"
    then obtain r where r: "r \<in> set rs" "\<not> mapped (idToRow s) r" and a: "a = rowFromRecord r"
      by (auto simp: upsert_plan_closed)
    from unmapped_key [OF assms(1) r] a assms(3) show "key_of a \<noteq> Some k" by auto
  qed
  from idToRow_loop_append_other [OF this]
  have "idToRow_loop 0 (drop 1 s @ snd (upsert_plan s rs)) Map.empty k =
      idToRow_loop 0 (drop 1 s) Map.empty k" .
  moreover have "idToRow (snd (upsertByTaskId s rs)) k =
      idToRow_loop 0 (drop 1 s @ snd (upsert_plan s rs)) Map.empty k"
    by (rule fun_cong [OF idToRow_after [OF assms(1,2)]])
  moreover have "idToRow s k = idToRow_loop 0 (drop 1 s) Map.empty k"
    by (rule fun_cong [OF idToRow_data])
  ultimately show ?thesis using assms(3) by simp
qed

lemma idToRow_after_new:
  assumes "keyed rs" and "s \<noteq> []" and "idToRow s k = None" and "lastrec rs k = Some r"
  shows "\<exists>i<length (snd (upsert_plan s rs)).
      idToRow (snd (upsertByTaskId s rs)) k = Some (length s + i + 1) \<and>
      snd (upsert_plan s rs) ! i = rowFromRecord r"
proof -
  have "\<exists>i<length (filter (\<lambda>r. \<not> mapped (idToRow s) r) rs).
        idToRow_loop 0 (drop 1 s @ map rowFromRecord (filter (\<lambda>r. \<not> mapped (idToRow s) r) rs))
          Map.empty k = Some (length (drop 1 s) + i + 2) \<and>
        map rowFromRecord (filter (\<lambda>r. \<not> mapped (idToRow s) r) rs) ! i = rowFromRecord r"
    by (rule appended_row_of_key [where m = "idToRow s", OF _ assms(1,4,3)]) (rule idToRow_pos)
  then obtain i where i: "i < length (filter (\<lambda>r. \<not> mapped (idToRow s) r) rs)"
    and m: "idToRow_loop 0 (drop 1 s @ map rowFromRecord (filter (\<lambda>r. \<not> mapped (idToRow s) r) rs))
        Map.empty k = Some (length (drop 1 s) + i + 2)"
    and a: "map rowFromRecord (filter (\<lambda>r. \<not> mapped (idToRow s) r) rs) ! i = rowFromRecord r"
    by blast
  from assms(2) have "length (drop 1 s) + i + 2 = length s + i + 1"
    by (cases s) simp_all
  with i m a show ?thesis
    by (auto simp: idToRow_after [OF assms(1,2)] upsert_plan_closed)
qed

lemma all_mapped_after:
  assumes "keyed rs" and "s \<noteq> []" and "r \<in> set rs"
  shows "\<exists>n. map_get (idToRow (snd (upsertByTaskId s rs))) (task_id r) = Some n \<and> n \<noteq> 0"
proof -
  from keyedD [OF assms(1,3)] obtain k where k: "task_id r = JStr k" by blast
  from lastrec_exists [OF assms(3) k] obtain r' where l: "lastrec rs k = Some r'" by blast
  have "\<exists>n. idToRow (snd (upsertByTaskId s rs)) k = Some n"
  proof (cases "idToRow s k")
    case None
    from idToRow_after_new [OF assms(1,2) None l] show ?thesis by blast
  next
    case (Some n)
    from idToRow_after_old [OF assms(1,2) Some] show ?thesis by blast
  qed
  then obtain n where "idToRow (snd (upsertByTaskId s rs)) k = Some n" by blast
  with idToRow_pos [OF this] k show ?thesis by (simp add: map_get_def)
qed

text \<open>After a run, the row of a key holds the values of the last record with that key.\<close>

lemma row_after:
  assumes "keyed rs" and "s \<noteq> []" and "lastrec rs k = Some r"
    and "idToRow (snd (upsertByTaskId s rs)) k = Some n"
  shows "take 7 (snd (upsertByTaskId s rs) ! (n - 1)) = rowFromRecord r"
proof (cases "idToRow s k")
  case (Some n0)
  from idToRow_after_old [OF assms(1,2) Some] assms(4) have n: "n0 = n" by simp
  from idToRow_range(1,2) [OF Some] n have range: "1 \<le> n" "n \<le> length s" by simp_all
  have "map_of (rev (map (\<lambda>r. (target (idToRow s) r, rowFromRecord r))
      (filter (mapped (idToRow s)) rs))) n0 = Some (rowFromRecord r)"
    by (rule last_update_of_key [where m = "idToRow s", OF _ _ assms(1,3) Some]) (erule (1) idToRow_inj, erule idToRow_pos)
  then have "map_of (rev (fst (upsert_plan s rs))) n = Some (rowFromRecord r)"
    using n by (simp add: upsert_plan_closed)
  moreover from range have "n - 1 < length s" "n - 1 + 1 = n" by simp_all
  ultimately have "batch_update (fst (upsert_plan s rs)) s ! (n - 1) =
      rowFromRecord r @ drop 7 (s ! (n - 1))"
    using batch_update_rows [OF upsert_updates_ok, of s rs] by simp
  moreover have "length (batch_update (fst (upsert_plan s rs)) s) = length s"
    using batch_update_rows [OF upsert_updates_ok, of s rs] by simp
  ultimately show ?thesis
    using \<open>n - 1 < length s\<close> by (simp add: upsert_store nth_append rowFromRecord_length)
next
  case None
  from idToRow_after_new [OF assms(1,2) None assms(3)] assms(4) obtain i where
    i: "i < length (snd (upsert_plan s rs))" and n: "n = length s + i + 1"
    and a: "snd (upsert_plan s rs) ! i = rowFromRecord r" by auto
  have "length (batch_update (fst (upsert_plan s rs)) s) = length s"
    using batch_update_rows [OF upsert_updates_ok, of s rs] by simp
  with n a show ?thesis
    by (simp add: upsert_store nth_append rowFromRecord_length)
qed

lemma second_run_unchanged:
  assumes "keyed rs" and "s \<noteq> []"
  shows "snd (upsert_plan (snd (upsertByTaskId s rs)) rs) = []"
    and "\<forall>n vals. map_of (rev (fst (upsert_plan (snd (upsertByTaskId s rs)) rs))) n = Some vals \<longrightarrow>
          take 7 (snd (upsertByTaskId s rs) ! (n - 1)) = vals"
    and "snd (upsertByTaskId (snd (upsertByTaskId s rs)) rs) = snd (upsertByTaskId s rs)"
proof -
  let ?s1 = "snd (upsertByTaskId s rs)"
  have all: "\<forall>r\<in>set rs. mapped (idToRow ?s1) r"
  proof
    fix r assume "r \<in> set rs"
    from all_mapped_after [OF assms this] obtain n where
      "map_get (idToRow ?s1) (task_id r) = Some n" "n \<noteq> 0" by blast
    then show "mapped (idToRow ?s1) r" by (simp add: mapped_def)
  qed
  then have f: "filter (\<lambda>r. \<not> mapped (idToRow ?s1) r) rs = []"
    by (simp add: filter_empty_conv)
  then show aps: "snd (upsert_plan ?s1 rs) = []"
    by (simp add: upsert_plan_closed)
  show last: "\<forall>n vals. map_of (rev (fst (upsert_plan ?s1 rs))) n = Some vals \<longrightarrow>
          take 7 (?s1 ! (n - 1)) = vals"
  proof (intro allI impI)
    fix n vals assume "map_of (rev (fst (upsert_plan ?s1 rs))) n = Some vals"
    then have lw: "map_of (rev (map (\<lambda>r. (target (idToRow ?s1) r, rowFromRecord r))
        (filter (mapped (idToRow ?s1)) rs))) n = Some vals"
      by (simp add: upsert_plan_closed)
    have "\<exists>r k. lastrec rs k = Some r \<and> idToRow ?s1 k = Some n \<and> vals = rowFromRecord r"
      by (rule last_update_source [where M = "idToRow ?s1", OF _ assms(1) lw]) (rule idToRow_pos)
    then obtain r k where "lastrec rs k = Some r" "idToRow ?s1 k = Some n" "vals = rowFromRecord r"
      by blast
    with row_after [OF assms, of k r n] show "take 7 (?s1 ! (n - 1)) = vals" by simp
  qed
  note br = batch_update_rows [OF upsert_updates_ok, of ?s1 rs]
  have "batch_update (fst (upsert_plan ?s1 rs)) ?s1 = ?s1"
  proof (rule nth_equalityI)
    show "length (batch_update (fst (upsert_plan ?s1 rs)) ?s1) = length ?s1"
      using br by blast
  next
    fix j assume "j < length (batch_update (fst (upsert_plan ?s1 rs)) ?s1)"
    with br have j: "j < length ?s1" by simp
    with br have e: "batch_update (fst (upsert_plan ?s1 rs)) ?s1 ! j =
       (case map_of (rev (fst (upsert_plan ?s1 rs))) (j + 1) of None \<Rightarrow> ?s1 ! j
        | Some vals \<Rightarrow> vals @ drop 7 (?s1 ! j))" by blast
    show "batch_update (fst (upsert_plan ?s1 rs)) ?s1 ! j = ?s1 ! j"
    proof (cases "map_of (rev (fst (upsert_plan ?s1 rs))) (j + 1)")
      case None
      with e show ?thesis by simp
    next
      case (Some vals)
      with last have "take 7 (?s1 ! (j + 1 - 1)) = vals" by blast
      then have "vals @ drop 7 (?s1 ! j) = ?s1 ! j"
        using append_take_drop_id [of 7 "?s1 ! j"] by simp
      with e Some show ?thesis by simp
    qed
  qed
  with aps show "snd (upsertByTaskId ?s1 rs) = ?s1"
    by (simp add: upsert_store)
qed

lemma normalize_tasks_keyed:
  assumes "normalize_tasks stringify fieldName tasks = Inr rs"
  shows "keyed rs"
proof -
  have "\<forall>r\<in>set rs. case task_id r of JStr k \<Rightarrow> k \<noteq> [] | _ \<Rightarrow> False"
  proof
    fix r assume "r \<in> set rs"
    from normalize_tasks_task_id [OF assms this] obtain k where "task_id r = JStr k" "k \<noteq> []"
      by blast
    then show "case task_id r of JStr k \<Rightarrow> k \<noteq> [] | _ \<Rightarrow> False" by simp
  qed
  then show ?thesis by (simp add: keyed_def list_all_iff)
qed

lemma normalize_two_records:
  "normalize_tasks (\<lambda>v. None) ''Page URL''
     [JObj [(''id'', JStr ''A''), (''archived'', JBool True), (''name'', JStr ''x'')],
      JObj [(''id'', JStr ''A''), (''archived'', JBool True), (''name'', JStr ''y'')]]
   = Inr [\<lparr>task_id = JStr ''A'', task_name = JStr ''x'', status = JStr [], assignees = JStr [],
            page_url = JStr [], date_closed = JStr [], url = JStr []\<rparr>,
          \<lparr>task_id = JStr ''A'', task_name = JStr ''y'', status = JStr [], assignees = JStr [],
            page_url = JStr [], date_closed = JStr [], url = JStr []\<rparr>]"
proof -
  have d1: "isDone (JObj [(''id'', JStr ''A''), (''archived'', JBool True), (''name'', JStr ''x'')])"
    by code_simp
  have d2: "isDone (JObj [(''id'', JStr ''A''), (''archived'', JBool True), (''name'', JStr ''y'')])"
    by code_simp
  have r1: "to_record (\<lambda>v. None) ''Page URL''
      (JObj [(''id'', JStr ''A''), (''archived'', JBool True), (''name'', JStr ''x'')])
    = Inr \<lparr>task_id = JStr ''A'', task_name = JStr ''x'', status = JStr [], assignees = JStr [],
            page_url = JStr [], date_closed = JStr [], url = JStr []\<rparr>"
    by code_simp
  have r2: "to_record (\<lambda>v. None) ''Page URL''
      (JObj [(''id'', JStr ''A''), (''archived'', JBool True), (''name'', JStr ''y'')])
    = Inr \<lparr>task_id = JStr ''A'', task_name = JStr ''y'', status = JStr [], assignees = JStr [],
            page_url = JStr [], date_closed = JStr [], url = JStr []\<rparr>"
    by code_simp
  show ?thesis
    by (simp add: normalize_tasks_def d1 d2 r1 r2)
qed

lemma normalize_one_record:
  "normalize_tasks (\<lambda>v. None) ''Page URL''
     [JObj [(''id'', JStr ''A''), (''archived'', JBool True), (''name'', JStr ''x'')]]
   = Inr [\<lparr>task_id = JStr ''A'', task_name = JStr ''x'', status = JStr [], assignees = JStr [],
            page_url = JStr [], date_closed = JStr [], url = JStr []\<rparr>]"
proof -
  have d1: "isDone (JObj [(''id'', JStr ''A''), (''archived'', JBool True), (''name'', JStr ''x'')])"
    by code_simp
  have r1: "to_record (\<lambda>v. None) ''Page URL''
      (JObj [(''id'', JStr ''A''), (''archived'', JBool True), (''name'', JStr ''x'')])
    = Inr \<lparr>task_id = JStr ''A'', task_name = JStr ''x'', status = JStr [], assignees = JStr [],
            page_url = JStr [], date_closed = JStr [], url = JStr []\<rparr>"
    by code_simp
  show ?thesis
    by (simp add: normalize_tasks_def d1 r1)
qed

text \<open>
  C1. On a store that has its first row (the header guard has run), for the records the
  normalizer returns: in the second of two runs with the same records every record's
  task id is in the row map, nothing is appended, the last overwrite scheduled for a
  row writes the values the row already holds, the store after the second run equals
  the store after the first, and the only request sent is the batch of overwrites.
\<close>

theorem upsert_idempotent:
  assumes "normalize_tasks stringify fieldName tasks = Inr rs" and "s \<noteq> []"
  shows "(\<forall>r\<in>set rs. \<exists>n. map_get (idToRow (snd (upsertByTaskId s rs))) (task_id r) = Some n \<and> n \<noteq> 0) \<and>
     snd (upsert_plan (snd (upsertByTaskId s rs)) rs) = [] \<and>
     (\<forall>n vals. map_of (rev (fst (upsert_plan (snd (upsertByTaskId s rs)) rs))) n = Some vals \<longrightarrow>
        take 7 (snd (upsertByTaskId s rs) ! (n - 1)) = vals) \<and>
     snd (upsertByTaskId (snd (upsertByTaskId s rs)) rs) = snd (upsertByTaskId s rs) \<and>
     fst (upsertByTaskId (snd (upsertByTaskId s rs)) rs) =
       (if rs = [] then [] else [BatchUpdate (fst (upsert_plan (snd (upsertByTaskId s rs)) rs))])"
proof -
  let ?s1 = "snd (upsertByTaskId s rs)"
  from normalize_tasks_keyed [OF assms(1)] have k: "keyed rs" .
  have a: "\<forall>r\<in>set rs. \<exists>n. map_get (idToRow ?s1) (task_id r) = Some n \<and> n \<noteq> 0"
    using all_mapped_after [OF k assms(2)] by blast
  note sr = second_run_unchanged [OF k assms(2)]
  have all: "filter (mapped (idToRow ?s1)) rs = rs"
  proof (rule filter_True)
    show "\<forall>r\<in>set rs. mapped (idToRow ?s1) r"
    proof
      fix r assume "r \<in> set rs"
      with a obtain n where "map_get (idToRow ?s1) (task_id r) = Some n" "n \<noteq> 0" by blast
      then show "mapped (idToRow ?s1) r" by (simp add: mapped_def)
    qed
  qed
  have "fst (upsert_plan ?s1 rs) = [] \<longleftrightarrow> rs = []"
    by (simp add: upsert_plan_closed all)
  with sr(1) have q: "fst (upsertByTaskId ?s1 rs) =
       (if rs = [] then [] else [BatchUpdate (fst (upsert_plan ?s1 rs))])"
    by (simp add: upsert_requests)
  from a sr q show ?thesis by blast
qed

theorem upsert_idempotent_witness:
  "normalize_tasks (\<lambda>v. None) ''Page URL''
     [JObj [(''id'', JStr ''A''), (''archived'', JBool True), (''name'', JStr ''x'')],
      JObj [(''id'', JStr ''A''), (''archived'', JBool True), (''name'', JStr ''y'')]]
   = Inr [\<lparr>task_id = JStr ''A'', task_name = JStr ''x'', status = JStr [], assignees = JStr [],
            page_url = JStr [], date_closed = JStr [], url = JStr []\<rparr>,
          \<lparr>task_id = JStr ''A'', task_name = JStr ''y'', status = JStr [], assignees = JStr [],
            page_url = JStr [], date_closed = JStr [], url = JStr []\<rparr>] \<and>
   [map JStr HEADERS] \<noteq> [] \<and>
   snd (upsertByTaskId [map JStr HEADERS]
     [\<lparr>task_id = JStr ''A'', task_name = JStr ''x'', status = JStr [], assignees = JStr [],
        page_url = JStr [], date_closed = JStr [], url = JStr []\<rparr>,
      \<lparr>task_id = JStr ''A'', task_name = JStr ''y'', status = JStr [], assignees = JStr [],
        page_url = JStr [], date_closed = JStr [], url = JStr []\<rparr>])
   = [map JStr HEADERS,
      [JStr ''A'', JStr ''x'', JStr [], JStr [], JStr [], JStr [], JStr []],
      [JStr ''A'', JStr ''y'', JStr [], JStr [], JStr [], JStr [], JStr []]] \<and>
   snd (upsertByTaskId
     [map JStr HEADERS,
      [JStr ''A'', JStr ''x'', JStr [], JStr [], JStr [], JStr [], JStr []],
      [JStr ''A'', JStr ''y'', JStr [], JStr [], JStr [], JStr [], JStr []]]
     [\<lparr>task_id = JStr ''A'', task_name = JStr ''x'', status = JStr [], assignees = JStr [],
        page_url = JStr [], date_closed = JStr [], url = JStr []\<rparr>,
      \<lparr>task_id = JStr ''A'', task_name = JStr ''y'', status = JStr [], assignees = JStr [],
        page_url = JStr [], date_closed = JStr [], url = JStr []\<rparr>])
   = [map JStr HEADERS,
      [JStr ''A'', JStr ''x'', JStr [], JStr [], JStr [], JStr [], JStr []],
      [JStr ''A'', JStr ''y'', JStr [], JStr [], JStr [], JStr [], JStr []]]"
proof -
  let ?RS = "[\<lparr>task_id = JStr ''A'', task_name = JStr ''x'', status = JStr [], assignees = JStr [],
        page_url = JStr [], date_closed = JStr [], url = JStr []\<rparr>,
      \<lparr>task_id = JStr ''A'', task_name = JStr ''y'', status = JStr [], assignees = JStr [],
        page_url = JStr [], date_closed = JStr [], url = JStr []\<rparr>]"
  have ne: "[map JStr HEADERS] \<noteq> []" by simp
  have s1: "snd (upsertByTaskId [map JStr HEADERS] ?RS)
   = [map JStr HEADERS,
      [JStr ''A'', JStr ''x'', JStr [], JStr [], JStr [], JStr [], JStr []],
      [JStr ''A'', JStr ''y'', JStr [], JStr [], JStr [], JStr [], JStr []]]"
    by code_simp
  from upsert_idempotent [OF normalize_two_records ne]
  have "snd (upsertByTaskId (snd (upsertByTaskId [map JStr HEADERS] ?RS)) ?RS) =
      snd (upsertByTaskId [map JStr HEADERS] ?RS)"
    by blast
  then have s2: "snd (upsertByTaskId
     [map JStr HEADERS,
      [JStr ''A'', JStr ''x'', JStr [], JStr [], JStr [], JStr [], JStr []],
      [JStr ''A'', JStr ''y'', JStr [], JStr [], JStr [], JStr [], JStr []]] ?RS)
   = [map JStr HEADERS,
      [JStr ''A'', JStr ''x'', JStr [], JStr [], JStr [], JStr [], JStr []],
      [JStr ''A'', JStr ''y'', JStr [], JStr [], JStr [], JStr [], JStr []]]"
    unfolding s1 .
  from normalize_two_records ne s1 s2 show ?thesis by blast
qed

text \<open>
  The claim as written covers every store and every scheduled overwrite. On an empty
  store the first run appends the first record into row 1, which the second run does
  not read, so the record is appended again. And when two records share a task id but
  differ, the second run's overwrite for the first of them writes values that differ
  from those the row holds; the overwrite for the second restores them.
\<close>

theorem upsert_idempotent_counterexample:
  "normalize_tasks (\<lambda>v. None) ''Page URL''
     [JObj [(''id'', JStr ''A''), (''archived'', JBool True), (''name'', JStr ''x'')]]
   = Inr [\<lparr>task_id = JStr ''A'', task_name = JStr ''x'', status = JStr [], assignees = JStr [],
            page_url = JStr [], date_closed = JStr [], url = JStr []\<rparr>] \<and>
   snd (upsert_plan
     (snd (upsertByTaskId []
       [\<lparr>task_id = JStr ''A'', task_name = JStr ''x'', status = JStr [], assignees = JStr [],
          page_url = JStr [], date_closed = JStr [], url = JStr []\<rparr>]))
     [\<lparr>task_id = JStr ''A'', task_name = JStr ''x'', status = JStr [], assignees = JStr [],
        page_url = JStr [], date_closed = JStr [], url = JStr []\<rparr>])
   = [[JStr ''A'', JStr ''x'', JStr [], JStr [], JStr [], JStr [], JStr []]] \<and>
   normalize_tasks (\<lambda>v. None) ''Page URL''
     [JObj [(''id'', JStr ''A''), (''archived'', JBool True), (''name'', JStr ''x'')],
      JObj [(''id'', JStr ''A''), (''archived'', JBool True), (''name'', JStr ''y'')]]
   = Inr [\<lparr>task_id = JStr ''A'', task_name = JStr ''x'', status = JStr [], assignees = JStr [],
            page_url = JStr [], date_closed = JStr [], url = JStr []\<rparr>,
          \<lparr>task_id = JStr ''A'', task_name = JStr ''y'', status = JStr [], assignees = JStr [],
            page_url = JStr [], date_closed = JStr [], url = JStr []\<rparr>] \<and>
   fst (upsert_plan
     (snd (upsertByTaskId [map JStr HEADERS]
       [\<lparr>task_id = JStr ''A'', task_name = JStr ''x'', status = JStr [], assignees = JStr [],
          page_url = JStr [], date_closed = JStr [], url = JStr []\<rparr>,
        \<lparr>task_id = JStr ''A'', task_name = JStr ''y'', status = JStr [], assignees = JStr [],
          page_url = JStr [], date_closed = JStr [], url = JStr []\<rparr>]))
     [\<lparr>task_id = JStr ''A'', task_name = JStr ''x'', status = JStr [], assignees = JStr [],
        page_url = JStr [], date_closed = JStr [], url = JStr []\<rparr>,
      \<lparr>task_id = JStr ''A'', task_name = JStr ''y'', status = JStr [], assignees = JStr [],
        page_url = JStr [], date_closed = JStr [], url = JStr []\<rparr>])
   = [(3, [JStr ''A'', JStr ''x'', JStr [], JStr [], JStr [], JStr [], JStr []]),
      (3, [JStr ''A'', JStr ''y'', JStr [], JStr [], JStr [], JStr [], JStr []])] \<and>
   snd (upsertByTaskId [map JStr HEADERS]
       [\<lparr>task_id = JStr ''A'', task_name = JStr ''x'', status = JStr [], assignees = JStr [],
          page_url = JStr [], date_closed = JStr [], url = JStr []\<rparr>,
        \<lparr>task_id = JStr ''A'', task_name = JStr ''y'', status = JStr [], assignees = JStr [],
          page_url = JStr [], date_closed = JStr [], url = JStr []\<rparr>]) ! 2
   = [JStr ''A'', JStr ''y'', JStr [], JStr [], JStr [], JStr [], JStr []]"
proof -
  let ?R1 = "\<lparr>task_id = JStr ''A'', task_name = JStr ''x'', status = JStr [], assignees = JStr [],
          page_url = JStr [], date_closed = JStr [], url = JStr []\<rparr>"
  let ?R2 = "\<lparr>task_id = JStr ''A'', task_name = JStr ''y'', status = JStr [], assignees = JStr [],
          page_url = JStr [], date_closed = JStr [], url = JStr []\<rparr>"
  have a: "snd (upsert_plan (snd (upsertByTaskId [] [?R1])) [?R1])
      = [[JStr ''A'', JStr ''x'', JStr [], JStr [], JStr [], JStr [], JStr []]]"
    by code_simp
  have b: "fst (upsert_plan (snd (upsertByTaskId [map JStr HEADERS] [?R1, ?R2])) [?R1, ?R2])
   = [(3, [JStr ''A'', JStr ''x'', JStr [], JStr [], JStr [], JStr [], JStr []]),
      (3, [JStr ''A'', JStr ''y'', JStr [], JStr [], JStr [], JStr [], JStr []])]"
    by code_simp
  have c: "snd (upsertByTaskId [map JStr HEADERS] [?R1, ?R2]) ! 2
   = [JStr ''A'', JStr ''y'', JStr [], JStr [], JStr [], JStr [], JStr []]"
    by code_simp
  from normalize_one_record normalize_two_records a b c show ?thesis by blast
qed

end
